theory Spec2Isabelle
  imports Main "HOL-Library.Word"
begin

section \<open>Errors\<close>

text \<open>
  Every way in which the C++ code stops instead of returning is a value of this type.
  Assertions are modelled as enabled (the default build): a failed \<^verbatim>\<open>assert\<close> aborts.
  \<^item> \<open>StackUnderflow\<close>: \<^verbatim>\<open>assert(m_current_node->m_parent != nullptr)\<close> in \<^verbatim>\<open>end_scope\<close>;
  \<^item> \<open>LabelMismatch\<close>: \<^verbatim>\<open>assert(m_label_helper.equal(...))\<close> in \<^verbatim>\<open>end_scope(label)\<close>;
  \<^item> \<open>OutOfMemory\<close>: \<^verbatim>\<open>std::bad_alloc\<close>, thrown after a null \<^verbatim>\<open>malloc\<close>/\<^verbatim>\<open>realloc\<close>, by
    \<^verbatim>\<open>new measure_node_t\<close> and by the growth of a \<^verbatim>\<open>children\<close> vector;
  \<^item> \<open>AssertionFailed\<close>: \<^verbatim>\<open>assert(false && "Either this or other must be of
    type_t::STRING_SET")\<close> in \<^verbatim>\<open>hashset_entry_t::operator==\<close>;
  \<^item> \<open>DoubleFree\<close>: \<^verbatim>\<open>free(m_data)\<close> on a block that \<^verbatim>\<open>realloc\<close> has already released;
  \<^item> \<open>DanglingCurrent\<close>: \<^verbatim>\<open>m_current_node\<close> does not point into the tree (never the case
    in a state built by the constructor and the public operations).
\<close>

datatype error =
    StackUnderflow
  | LabelMismatch
  | OutOfMemory
  | AssertionFailed
  | DoubleFree
  | DanglingCurrent

section \<open>The heap overlay (fiya-heap-measure.h, fiya-heap-overloads.cpp)\<close>

text \<open>\<^verbatim>\<open>struct heap_usage_t\<close>: four \<^verbatim>\<open>uint64_t\<close> accumulators, all zero initially.\<close>

record heap_usage_t =
  peak_allocations :: "64 word"
  total_allocations :: "64 word"
  current_allocations :: "64 word"
  bad_deallocations :: "64 word"

definition heap_usage_init :: heap_usage_t where
  "heap_usage_init =
     \<lparr>peak_allocations = 0, total_allocations = 0, current_allocations = 0,
      bad_deallocations = 0\<rparr>"

definition ALLOC_MAGIC_PATTERN :: "32 word" where
  "ALLOC_MAGIC_PATTERN = 0x4321cba9"

text \<open>
  The two \<^verbatim>\<open>uint32_t\<close> words in front of a block: \<^verbatim>\<open>pu[0]\<close> and \<^verbatim>\<open>pu[1]\<close>. A block is
  identified with what is stored in front of it; a block that did not come from
  \<^verbatim>\<open>operator new\<close> has whatever two words happen to precede it.
\<close>

record block_header =
  hdr_magic :: "32 word"
  hdr_bytes :: "32 word"

definition max_uint32 :: "64 word" where
  "max_uint32 = 0xFFFFFFFF"

text \<open>\<^verbatim>\<open>static_cast<uint32_t>(n > max_uint32 ? max_uint32 : n)\<close>\<close>

definition allocated_bytes :: "64 word \<Rightarrow> 32 word" where
  "allocated_bytes n = ucast (if n > max_uint32 then max_uint32 else n)"

text \<open>
  \<^verbatim>\<open>operator new(n)\<close>. \<open>malloc_ok\<close> says whether \<^verbatim>\<open>malloc\<close> returned a block. \<open>counter\<close> is
  what \<^verbatim>\<open>get_heap_counter()\<close> gives: \<open>None\<close> for a null pointer, otherwise the value
  of \<^verbatim>\<open>recorder_internal_running()\<close> and the \<^verbatim>\<open>heap_usage_t\<close> behind \<^verbatim>\<open>cnt()\<close>. The result
  is the header written in front of the returned block and the counter afterwards.
\<close>

definition count_new :: "32 word \<Rightarrow> heap_usage_t \<Rightarrow> heap_usage_t" where
  "count_new b hu =
     (let hu = hu\<lparr>total_allocations := total_allocations hu + ucast b\<rparr>;
          hu = hu\<lparr>current_allocations := current_allocations hu + ucast b\<rparr>
      in hu\<lparr>peak_allocations := max (peak_allocations hu) (current_allocations hu)\<rparr>)"

definition operator_new ::
  "bool \<Rightarrow> (bool \<times> heap_usage_t) option \<Rightarrow> 64 word
     \<Rightarrow> error + (block_header \<times> (bool \<times> heap_usage_t) option)" where
  "operator_new malloc_ok counter n =
     (if \<not> malloc_ok then Inl OutOfMemory
      else
        let hdr = \<lparr>hdr_magic = ALLOC_MAGIC_PATTERN, hdr_bytes = allocated_bytes n\<rparr>
        in Inr (hdr,
             (case counter of
                None \<Rightarrow> None
              | Some (running, hu) \<Rightarrow>
                  if \<not> running then Some (running, count_new (allocated_bytes n) hu)
                  else Some (running, hu))))"

text \<open>
  \<^verbatim>\<open>operator delete(p)\<close>. The argument is \<open>None\<close> for a null pointer, otherwise the
  header found in front of \<open>p\<close>. Besides the counter the result says which pointer
  went to \<^verbatim>\<open>free\<close>: the header's (\<open>True\<close>, the whole block) or \<open>p\<close> as given (\<open>False\<close>).
\<close>

definition count_delete :: "block_header \<Rightarrow> heap_usage_t \<Rightarrow> heap_usage_t" where
  "count_delete hdr hu =
     (if hdr_magic hdr = ALLOC_MAGIC_PATTERN
      then hu\<lparr>current_allocations := current_allocations hu - ucast (hdr_bytes hdr)\<rparr>
      else hu\<lparr>bad_deallocations := bad_deallocations hu + 1\<rparr>)"

definition operator_delete ::
  "(bool \<times> heap_usage_t) option \<Rightarrow> block_header option
     \<Rightarrow> bool option \<times> (bool \<times> heap_usage_t) option" where
  "operator_delete counter p =
     (case p of
        None \<Rightarrow> (None, counter)
      | Some hdr \<Rightarrow>
          (Some (hdr_magic hdr = ALLOC_MAGIC_PATTERN),
           (case counter of
              None \<Rightarrow> None
            | Some (running, hu) \<Rightarrow>
                if \<not> running then Some (running, count_delete hdr hu)
                else Some (running, hu))))"

text \<open>
  A run of overlay calls against one counter that is not busy: \<open>New ok n\<close> is
  \<^verbatim>\<open>operator new(n)\<close> (with the outcome of \<^verbatim>\<open>malloc\<close>), \<open>Delete p\<close> is \<^verbatim>\<open>operator delete(p)\<close>.
\<close>

datatype heap_op = New bool "64 word" | Delete "block_header option"

fun heap_step ::
  "(bool \<times> heap_usage_t) option \<Rightarrow> heap_op \<Rightarrow> error + (bool \<times> heap_usage_t) option" where
  "heap_step counter (New ok n) =
     (case operator_new ok counter n of Inl e \<Rightarrow> Inl e | Inr (hdr, counter') \<Rightarrow> Inr counter')"
| "heap_step counter (Delete p) = Inr (snd (operator_delete counter p))"

fun heap_run ::
  "(bool \<times> heap_usage_t) option \<Rightarrow> heap_op list \<Rightarrow> error + (bool \<times> heap_usage_t) option" where
  "heap_run counter [] = Inr counter"
| "heap_run counter (x # xs) =
     (case heap_step counter x of Inl e \<Rightarrow> Inl e | Inr counter' \<Rightarrow> heap_run counter' xs)"

text \<open>
  \<open>new_n N S\<close>: \<open>N\<close> successful calls of \<^verbatim>\<open>operator new(S)\<close>; the headers of the blocks
  come back in the order of allocation. \<open>delete_blocks\<close> frees the given blocks.
\<close>

fun new_n ::
  "nat \<Rightarrow> 64 word \<Rightarrow> (bool \<times> heap_usage_t) option
     \<Rightarrow> error + (block_header list \<times> (bool \<times> heap_usage_t) option)" where
  "new_n 0 S counter = Inr ([], counter)"
| "new_n (Suc N) S counter =
     (case operator_new True counter S of
        Inl e \<Rightarrow> Inl e
      | Inr (hdr, counter') \<Rightarrow>
          (case new_n N S counter' of
             Inl e \<Rightarrow> Inl e
           | Inr (hdrs, counter'') \<Rightarrow> Inr (hdr # hdrs, counter'')))"

fun delete_blocks ::
  "block_header list \<Rightarrow> (bool \<times> heap_usage_t) option \<Rightarrow> (bool \<times> heap_usage_t) option" where
  "delete_blocks [] counter = counter"
| "delete_blocks (hdr # hdrs) counter =
     delete_blocks hdrs (snd (operator_delete counter (Some hdr)))"

text \<open>
  A tagged deallocation that would take \<open>current_allocations\<close> below zero wraps around
  (\<^verbatim>\<open>uint64_t\<close> subtraction). \<open>underflow_free hu ops\<close> holds when no deallocation of the run
  does so, starting from \<open>hu\<close> with counting active.
\<close>

fun underflow_free :: "heap_usage_t \<Rightarrow> heap_op list \<Rightarrow> bool" where
  "underflow_free hu [] = True"
| "underflow_free hu (New ok n # xs) = underflow_free (count_new (allocated_bytes n) hu) xs"
| "underflow_free hu (Delete None # xs) = underflow_free hu xs"
| "underflow_free hu (Delete (Some hdr) # xs) =
     ((hdr_magic hdr = ALLOC_MAGIC_PATTERN \<longrightarrow>
         unat (hdr_bytes hdr) \<le> unat (current_allocations hu))
      \<and> underflow_free (count_delete hdr hu) xs)"

text \<open>\<open>all_allocated ops\<close>: \<^verbatim>\<open>malloc\<close> returns a block in every allocation of the run.\<close>

fun all_allocated :: "heap_op list \<Rightarrow> bool" where
  "all_allocated [] = True"
| "all_allocated (New ok n # xs) = (ok \<and> all_allocated xs)"
| "all_allocated (Delete p # xs) = all_allocated xs"

section \<open>The string database (fiya-string-db.h)\<close>

text \<open>
  A \<^verbatim>\<open>const char *\<close> argument is modelled by the bytes found at the pointer; the C string
  it denotes ends before the first NUL (or at the end of the list). \<^verbatim>\<open>strcmp(a, b) == 0\<close>
  compares these contents.
\<close>

definition NUL :: char where
  "NUL = CHR 0x00"

definition c_str :: "string \<Rightarrow> string" where
  "c_str s = takeWhile (\<lambda>c. c \<noteq> NUL) s"

definition strlen :: "string \<Rightarrow> nat" where
  "strlen s = length (c_str s)"

definition strcmp_eq :: "string \<Rightarrow> string \<Rightarrow> bool" where
  "strcmp_eq a b = (c_str a = c_str b)"

text \<open>
  \<^verbatim>\<open>calculate_hash\<close>: \<^verbatim>\<open>hash = ((hash << 5) + hash) + c\<close> on a 64-bit \<^verbatim>\<open>size_t\<close>, starting
  from 5381, until the terminator. Plain \<^verbatim>\<open>char\<close> is taken to be signed (as on x86-64),
  so a byte above 127 is sign-extended when it is added.
\<close>

definition char_as_size_t :: "char \<Rightarrow> 64 word" where
  "char_as_size_t c =
     (if (of_char c :: nat) < 128 then of_nat (of_char c) else of_nat (of_char c) - 256)"

fun calculate_hash_loop :: "64 word \<Rightarrow> string \<Rightarrow> 64 word" where
  "calculate_hash_loop hash [] = hash"
| "calculate_hash_loop hash (c # str) =
     (if c = NUL then hash
      else calculate_hash_loop ((push_bit 5 hash + hash) + char_as_size_t c) str)"

definition calculate_hash :: "string \<Rightarrow> 64 word" where
  "calculate_hash str = calculate_hash_loop 5381 str"

text \<open>
  \<^verbatim>\<open>hashset_entry_t\<close>, the tagged union: a lookup key carries the string and the base
  address of the buffer (modelled by the buffer's bytes at the time of the lookup); a
  stored entry carries the offset of its string and the hash computed at insertion.
\<close>

datatype hashset_entry_t =
    STRING_SET string string
  | IDX_SET nat "64 word"

fun get_idx :: "hashset_entry_t \<Rightarrow> error + nat" where
  "get_idx (IDX_SET idx h) = Inr idx"
| "get_idx (STRING_SET str base) = Inl AssertionFailed"

text \<open>\<^verbatim>\<open>operator==\<close>, \<open>entry_eq this other\<close>, in the order of its branches.\<close>

fun entry_eq :: "hashset_entry_t \<Rightarrow> hashset_entry_t \<Rightarrow> error + bool" where
  "entry_eq (IDX_SET idx h) (STRING_SET str base) = Inr (strcmp_eq str (drop idx base))"
| "entry_eq (IDX_SET idx h) (IDX_SET idx' h') = Inl AssertionFailed"
| "entry_eq (STRING_SET str base) (IDX_SET idx h) = Inr (strcmp_eq str (drop idx base))"
| "entry_eq (STRING_SET str base) (STRING_SET str' base') = Inr (strcmp_eq str str')"

text \<open>\<^verbatim>\<open>struct hash\<close>\<close>

fun entry_hash :: "hashset_entry_t \<Rightarrow> 64 word" where
  "entry_hash (STRING_SET str base) = calculate_hash str"
| "entry_hash (IDX_SET idx h) = h"

text \<open>
  \<^verbatim>\<open>std::unordered_set<hashset_entry_t, hash>\<close>, as the list of its elements. To decide
  whether an element equal to a key is present, the container calls \<^verbatim>\<open>operator==\<close> with
  the key on the stored elements whose hash is the key's (elements of one hash lie in
  one bucket, and the hash of a stored element is kept beside it). \<^verbatim>\<open>find\<close> does so
  for the key it is given, \<^verbatim>\<open>emplace\<close> for the element it has just constructed.
\<close>

fun uset_lookup ::
  "hashset_entry_t \<Rightarrow> hashset_entry_t list \<Rightarrow> error + hashset_entry_t option" where
  "uset_lookup k [] = Inr None"
| "uset_lookup k (e # es) =
     (if entry_hash e = entry_hash k then
        (case entry_eq k e of
           Inl err \<Rightarrow> Inl err
         | Inr True \<Rightarrow> Inr (Some e)
         | Inr False \<Rightarrow> uset_lookup k es)
      else uset_lookup k es)"

definition uset_find ::
  "hashset_entry_t \<Rightarrow> hashset_entry_t list \<Rightarrow> error + hashset_entry_t option" where
  "uset_find k dict = uset_lookup k dict"

definition uset_emplace ::
  "hashset_entry_t \<Rightarrow> hashset_entry_t list \<Rightarrow> error + hashset_entry_t list" where
  "uset_emplace new dict =
     (case uset_lookup new dict of
        Inl err \<Rightarrow> Inl err
      | Inr (Some e) \<Rightarrow> Inr dict
      | Inr None \<Rightarrow> Inr (dict @ [new]))"

text \<open>
  \<^verbatim>\<open>string_db_t\<close>. \<open>m_data\<close> holds the initialised bytes of the buffer, so \<^verbatim>\<open>m_size\<close> is its
  length; the rest of the buffer, up to \<open>m_capacity\<close>, holds nothing yet.
\<close>

record string_db_t =
  m_dict :: "hashset_entry_t list"
  m_data :: string
  m_capacity :: nat

definition m_size :: "string_db_t \<Rightarrow> nat" where
  "m_size db = length (m_data db)"

definition string_db_ctor :: "bool \<Rightarrow> nat \<Rightarrow> error + string_db_t" where
  "string_db_ctor malloc_ok capacity =
     (if \<not> malloc_ok then Inl OutOfMemory
      else Inr \<lparr>m_dict = [], m_data = [], m_capacity = capacity\<rparr>)"

text \<open>
  What \<^verbatim>\<open>realloc\<close> answers: a null pointer, the same pointer (the block grew in place), or
  another pointer (the bytes were copied there and the old block was released).
\<close>

datatype realloc_result = Realloc_null | Realloc_same | Realloc_moved

text \<open>
  The regrow branch of \<^verbatim>\<open>push_back\<close>. \<^verbatim>\<open>m_capacity * 1.5\<close> converted back to \<^verbatim>\<open>size_t\<close> is
  \<open>m_capacity * 3 div 2\<close>. When \<^verbatim>\<open>realloc\<close> returns another pointer, the code copies from
  the old block and passes it to \<^verbatim>\<open>free\<close>, although \<^verbatim>\<open>realloc\<close> has released it already.
\<close>

definition regrow :: "(nat \<Rightarrow> realloc_result) \<Rightarrow> string_db_t \<Rightarrow> nat \<Rightarrow> error + string_db_t" where
  "regrow realloc db string_len =
     (let new_capacity = max (m_capacity db * 3 div 2) (string_len + m_size db)
      in case realloc new_capacity of
           Realloc_null \<Rightarrow> Inl OutOfMemory
         | Realloc_moved \<Rightarrow> Inl DoubleFree
         | Realloc_same \<Rightarrow> Inr (db\<lparr>m_capacity := new_capacity\<rparr>))"

definition push_back ::
  "(nat \<Rightarrow> realloc_result) \<Rightarrow> string_db_t \<Rightarrow> string \<Rightarrow> error + (nat \<times> string_db_t)" where
  "push_back realloc db str =
     (case uset_find (STRING_SET str (m_data db)) (m_dict db) of
        Inl e \<Rightarrow> Inl e
      | Inr (Some it) \<Rightarrow>
          (case get_idx it of Inl e \<Rightarrow> Inl e | Inr idx \<Rightarrow> Inr (idx, db))
      | Inr None \<Rightarrow>
          (let string_len = strlen str + 1 in
           case (if string_len + m_size db > m_capacity db
                 then regrow realloc db string_len else Inr db) of
             Inl e \<Rightarrow> Inl e
           | Inr db1 \<Rightarrow>
               (let string_begin = m_size db1;
                    db2 = db1\<lparr>m_data := m_data db1 @ c_str str @ [NUL]\<rparr>
                in case uset_emplace (IDX_SET string_begin (calculate_hash str)) (m_dict db2) of
                     Inl e \<Rightarrow> Inl e
                   | Inr dict \<Rightarrow> Inr (string_begin, db2\<lparr>m_dict := dict\<rparr>))))"

text \<open>
  \<^verbatim>\<open>get(idx)\<close> returns \<^verbatim>\<open>m_data + idx\<close>; the model gives the C string found there.
\<close>

definition get :: "string_db_t \<Rightarrow> nat \<Rightarrow> string" where
  "get db idx = c_str (drop idx (m_data db))"

section \<open>Labels (label_helper)\<close>

text \<open>
  An instance of the class template \<^verbatim>\<open>label_helper<LabelType>\<close> is given by its three
  member functions. The helper's own data are passed explicitly: there are none in
  the primary template, and the string database in the \<^verbatim>\<open>const char *\<close> specialisation.
  \<open>'l\<close> is the type of the labels callers pass in (the external representation), \<open>'i\<close>
  that of the labels stored in the tree (the internal one; for \<^verbatim>\<open>const char *\<close> an offset
  into the string database, carried in a pointer-sized value).
\<close>

record ('l, 'i, 'h) label_helper =
  lh_equal :: "'h \<Rightarrow> 'i \<Rightarrow> 'l \<Rightarrow> bool"
  lh_save :: "'h \<Rightarrow> 'l \<Rightarrow> error + ('i \<times> 'h)"
  lh_restore :: "'h \<Rightarrow> 'i \<Rightarrow> 'l"

text \<open>The primary template: \<^verbatim>\<open>l1 == l2\<close>, and \<^verbatim>\<open>save\<close>/\<^verbatim>\<open>restore\<close> return their argument.\<close>

definition label_helper_primary :: "('l, 'l, unit) label_helper" where
  "label_helper_primary =
     \<lparr>lh_equal = (\<lambda>h l1 l2. l1 = l2),
      lh_save = (\<lambda>h l. Inr (l, h)),
      lh_restore = (\<lambda>h l. l)\<rparr>"

text \<open>
  \<^verbatim>\<open>label_helper<const char*>\<close>: \<^verbatim>\<open>strcmp(m_string_db.get(idx), l2) == 0\<close>,
  \<^verbatim>\<open>m_string_db.push_back(l)\<close> and \<^verbatim>\<open>m_string_db.get(idx)\<close>.
\<close>

definition label_helper_cstr ::
  "(nat \<Rightarrow> realloc_result) \<Rightarrow> (string, nat, string_db_t) label_helper" where
  "label_helper_cstr realloc =
     \<lparr>lh_equal = (\<lambda>db l1 l2. strcmp_eq (get db l1) l2),
      lh_save = (\<lambda>db l. case push_back realloc db l of
                            Inl e \<Rightarrow> Inl e | Inr (idx, db') \<Rightarrow> Inr (idx, db')),
      lh_restore = (\<lambda>db l. get db l)\<rparr>"

section \<open>The recorder (fiya-recorder.h)\<close>

text \<open>
  \<^verbatim>\<open>measure_node_t\<close>: label, value and the vector of children, which the node owns. The
  back pointer \<^verbatim>\<open>m_parent\<close> is not stored in the model: a node is addressed by the path
  of child indices that leads to it from the root, its parent by the path without the
  last index, and the root (\<^verbatim>\<open>m_parent == nullptr\<close>) by the empty path.
\<close>

datatype ('i, 'm) measure_node_t =
  Node (m_label: 'i) (m_value: 'm) (m_children: "('i, 'm) measure_node_t list")

record ('i, 'm, 'h) recorder_t =
  m_recorder_internal_running :: bool
  m_label_helper :: 'h
  m_default_value :: 'm
  m_root :: "('i, 'm) measure_node_t"
  m_current_node :: "nat list"

text \<open>Following a path from a node; \<open>None\<close> when the path leaves the tree.\<close>

fun node_at :: "('i, 'm) measure_node_t \<Rightarrow> nat list \<Rightarrow> ('i, 'm) measure_node_t option" where
  "node_at n [] = Some n"
| "node_at n (k # ks) =
     (if k < length (m_children n) then node_at (m_children n ! k) ks else None)"

text \<open>Writing through a pointer to the node at a path.\<close>

fun update_at ::
  "(('i, 'm) measure_node_t \<Rightarrow> ('i, 'm) measure_node_t) \<Rightarrow> nat list
     \<Rightarrow> ('i, 'm) measure_node_t \<Rightarrow> ('i, 'm) measure_node_t" where
  "update_at f [] n = f n"
| "update_at f (k # ks) (Node l v cs) =
     (if k < length cs then Node l v (cs[k := update_at f ks (cs ! k)]) else Node l v cs)"

text \<open>
  The constructor: the flag is set, the root node is allocated (\<^verbatim>\<open>new measure_node_t\<close>,
  which throws \<^verbatim>\<open>std::bad_alloc\<close> when \<open>new_ok\<close> is false), the root label is saved, the
  root node is created with \<open>root_value\<close>, and the flag is cleared. \<open>h\<close> is the freshly
  constructed helper.
\<close>

definition recorder_ctor ::
  "('l, 'i, 'h) label_helper \<Rightarrow> bool \<Rightarrow> 'h \<Rightarrow> 'm \<Rightarrow> 'l \<Rightarrow> 'm
     \<Rightarrow> error + ('i, 'm, 'h) recorder_t" where
  "recorder_ctor H new_ok h default_value root_label root_value =
     (if \<not> new_ok then Inl OutOfMemory
      else
        (case lh_save H h root_label of
           Inl e \<Rightarrow> Inl e
         | Inr (l, h') \<Rightarrow>
             Inr \<lparr>m_recorder_internal_running = False, m_label_helper = h',
                  m_default_value = default_value, m_root = Node l root_value [],
                  m_current_node = []\<rparr>))"

text \<open>
  The loop of \<^verbatim>\<open>begin_scope\<close> over \<^verbatim>\<open>children\<close>, from index \<open>i\<close> on: the index of the first
  child whose label is equal to the one asked for, if there is one.
\<close>

function scan_children ::
  "('i \<Rightarrow> bool) \<Rightarrow> ('i, 'm) measure_node_t list \<Rightarrow> nat \<Rightarrow> nat option" where
  "scan_children eq children i =
     (if i < length children then
        (if eq (m_label (children ! i)) then Some i
         else scan_children eq children (Suc i))
      else None)"
  by pat_completeness auto
termination
  by (relation "measure (\<lambda>(eq, children, i). length children - i)") auto

declare scan_children.simps [simp del]

definition emplace_back ::
  "('i, 'm) measure_node_t \<Rightarrow> ('i, 'm) measure_node_t \<Rightarrow> ('i, 'm) measure_node_t" where
  "emplace_back c n = Node (m_label n) (m_value n) (m_children n @ [c])"

text \<open>
  A new node needs two allocations, and either can throw \<^verbatim>\<open>std::bad_alloc\<close>:
  \<^verbatim>\<open>new measure_node_t\<close> for the node, and the growth of the \<^verbatim>\<open>children\<close> vector in
  \<^verbatim>\<open>emplace_back\<close>. The outcome is given from outside, as \<open>malloc_ok\<close> is to
  \<open>operator_new\<close>.
\<close>

datatype allocation_t = Allocated | New_fails | Emplace_back_fails

text \<open>
  \<^verbatim>\<open>begin_scope(label)\<close> between setting and clearing the flag. When no child has the
  label, \<^verbatim>\<open>children.emplace_back(new measure_node_t(m_label_helper.save(label), ...))\<close>
  allocates the node, then saves the label for the constructor, then appends the
  pointer.
\<close>

definition begin_scope_body ::
  "('l, 'i, 'h) label_helper \<Rightarrow> allocation_t \<Rightarrow> ('i, 'm, 'h) recorder_t \<Rightarrow> 'l
     \<Rightarrow> error + ('i, 'm, 'h) recorder_t" where
  "begin_scope_body H a r label =
     (case node_at (m_root r) (m_current_node r) of
        None \<Rightarrow> Inl DanglingCurrent
      | Some cur \<Rightarrow>
          (case scan_children (\<lambda>l. lh_equal H (m_label_helper r) l label) (m_children cur) 0 of
             Some i \<Rightarrow> Inr (r\<lparr>m_current_node := m_current_node r @ [i]\<rparr>)
           | None \<Rightarrow>
               (if a = New_fails then Inl OutOfMemory
                else
                  (case lh_save H (m_label_helper r) label of
                     Inl e \<Rightarrow> Inl e
                   | Inr (l, h') \<Rightarrow>
                       (if a = Emplace_back_fails then Inl OutOfMemory
                        else
                          Inr (r\<lparr>m_label_helper := h',
                                 m_root := update_at (emplace_back (Node l (m_default_value r) []))
                                             (m_current_node r) (m_root r),
                                 m_current_node :=
                                   m_current_node r @ [length (m_children cur)]\<rparr>))))))"

definition begin_scope ::
  "('l, 'i, 'h) label_helper \<Rightarrow> allocation_t \<Rightarrow> ('i, 'm, 'h) recorder_t \<Rightarrow> 'l
     \<Rightarrow> error + ('i, 'm, 'h) recorder_t" where
  "begin_scope H a r label =
     (case begin_scope_body H a (r\<lparr>m_recorder_internal_running := True\<rparr>) label of
        Inl e \<Rightarrow> Inl e
      | Inr r' \<Rightarrow> Inr (r'\<lparr>m_recorder_internal_running := False\<rparr>))"

text \<open>\<^verbatim>\<open>end_scope()\<close> and \<^verbatim>\<open>end_scope(label)\<close>, each assertion in its place.\<close>

definition end_scope :: "('i, 'm, 'h) recorder_t \<Rightarrow> error + ('i, 'm, 'h) recorder_t" where
  "end_scope r =
     (let r = r\<lparr>m_recorder_internal_running := True\<rparr>
      in if m_current_node r = [] then Inl StackUnderflow
         else Inr (r\<lparr>m_current_node := butlast (m_current_node r),
                     m_recorder_internal_running := False\<rparr>))"

definition end_scope_label ::
  "('l, 'i, 'h) label_helper \<Rightarrow> ('i, 'm, 'h) recorder_t \<Rightarrow> 'l
     \<Rightarrow> error + ('i, 'm, 'h) recorder_t" where
  "end_scope_label H r label =
     (let r = r\<lparr>m_recorder_internal_running := True\<rparr>
      in if m_current_node r = [] then Inl StackUnderflow
         else
           (case node_at (m_root r) (m_current_node r) of
              None \<Rightarrow> Inl DanglingCurrent
            | Some cur \<Rightarrow>
                if \<not> lh_equal H (m_label_helper r) (m_label cur) label then Inl LabelMismatch
                else Inr (r\<lparr>m_current_node := butlast (m_current_node r),
                            m_recorder_internal_running := False\<rparr>)))"

text \<open>
  \<^verbatim>\<open>cnt()\<close>: the value of the current node; the non-const overload returns a reference,
  through which the caller writes (\<open>cnt_update\<close>).
\<close>

definition cnt :: "('i, 'm, 'h) recorder_t \<Rightarrow> 'm option" where
  "cnt r = map_option m_value (node_at (m_root r) (m_current_node r))"

definition set_value :: "('m \<Rightarrow> 'm) \<Rightarrow> ('i, 'm) measure_node_t \<Rightarrow> ('i, 'm) measure_node_t" where
  "set_value f n = Node (m_label n) (f (m_value n)) (m_children n)"

definition cnt_update :: "('m \<Rightarrow> 'm) \<Rightarrow> ('i, 'm, 'h) recorder_t \<Rightarrow> ('i, 'm, 'h) recorder_t" where
  "cnt_update f r = r\<lparr>m_root := update_at (set_value f) (m_current_node r) (m_root r)\<rparr>"

definition recorder_internal_running :: "('i, 'm, 'h) recorder_t \<Rightarrow> bool" where
  "recorder_internal_running r = m_recorder_internal_running r"

text \<open>
  A sequence of calls on a recorder: \<open>Begin a l\<close>, \<open>End\<close> and \<open>EndL l\<close> are
  \<^verbatim>\<open>begin_scope(l)\<close>, \<^verbatim>\<open>end_scope()\<close> and \<^verbatim>\<open>end_scope(l)\<close>, where \<open>a\<close> is the outcome of the
  allocations of that call; \<open>Cnt f\<close> is a write through \<^verbatim>\<open>cnt()\<close>. The run stops at the
  first call that fails.
\<close>

datatype ('l, 'm) scope_op = Begin allocation_t 'l | End | EndL 'l | Cnt "'m \<Rightarrow> 'm"

fun step ::
  "('l, 'i, 'h) label_helper \<Rightarrow> ('i, 'm, 'h) recorder_t \<Rightarrow> ('l, 'm) scope_op
     \<Rightarrow> error + ('i, 'm, 'h) recorder_t" where
  "step H r (Begin a l) = begin_scope H a r l"
| "step H r End = end_scope r"
| "step H r (EndL l) = end_scope_label H r l"
| "step H r (Cnt f) = Inr (cnt_update f r)"

fun run ::
  "('l, 'i, 'h) label_helper \<Rightarrow> ('i, 'm, 'h) recorder_t \<Rightarrow> ('l, 'm) scope_op list
     \<Rightarrow> error + ('i, 'm, 'h) recorder_t" where
  "run H r [] = Inr r"
| "run H r (x # xs) = (case step H r x of Inl e \<Rightarrow> Inl e | Inr r' \<Rightarrow> run H r' xs)"

text \<open>
  Well-nested sequences: every \<open>End\<close> closes the innermost open \<open>Begin\<close>, an \<open>EndL l\<close>
  closes a \<open>Begin l\<close>, and nothing stays open. The first argument lists the labels of
  the scopes that are open, innermost first.
\<close>

fun well_nested :: "'l list \<Rightarrow> ('l, 'm) scope_op list \<Rightarrow> bool" where
  "well_nested st [] = (st = [])"
| "well_nested st (Begin a l # xs) = well_nested (l # st) xs"
| "well_nested st (End # xs) = (case st of [] \<Rightarrow> False | l # st' \<Rightarrow> well_nested st' xs)"
| "well_nested st (EndL l # xs) =
     (case st of [] \<Rightarrow> False | l' # st' \<Rightarrow> l' = l \<and> well_nested st' xs)"
| "well_nested st (Cnt f # xs) = well_nested st xs"

section \<open>The reports\<close>

text \<open>
  The output stream is the text written so far. The formatters \<open>l_out\<close> and \<open>m_out\<close> are
  given by the text they write for a label and for a measure.

  \<^verbatim>\<open>print_stack(node, ...)\<close> follows \<^verbatim>\<open>m_parent\<close> up to the root. Its model takes the label
  of the node and the labels on the chain of parents, nearest parent first.
\<close>

fun print_stack :: "('l \<Rightarrow> string) \<Rightarrow> ('i \<Rightarrow> 'l) \<Rightarrow> 'i \<Rightarrow> 'i list \<Rightarrow> string \<Rightarrow> string" where
  "print_stack l_out rst l [] os = os @ l_out (rst l)"
| "print_stack l_out rst l (p # ps) os =
     (let os = print_stack l_out rst p ps os;
          os = os @ '';''
      in os @ l_out (rst l))"

definition newline :: string where
  "newline = [CHR 0x0A]"

text \<open>
  \<^verbatim>\<open>to_collapsed_stack(node, ...)\<close>; the second function is its loop over the children.
\<close>

fun to_collapsed_stack ::
  "('l \<Rightarrow> string) \<Rightarrow> ('m \<Rightarrow> string) \<Rightarrow> ('i \<Rightarrow> 'l) \<Rightarrow> 'i list
     \<Rightarrow> ('i, 'm) measure_node_t \<Rightarrow> string \<Rightarrow> string"
and to_collapsed_stack_children ::
  "('l \<Rightarrow> string) \<Rightarrow> ('m \<Rightarrow> string) \<Rightarrow> ('i \<Rightarrow> 'l) \<Rightarrow> 'i list
     \<Rightarrow> ('i, 'm) measure_node_t list \<Rightarrow> string \<Rightarrow> string" where
  "to_collapsed_stack l_out m_out rst parents (Node l v cs) os =
     (let os = print_stack l_out rst l parents os;
          os = os @ '' '';
          os = os @ m_out v;
          os = os @ newline
      in to_collapsed_stack_children l_out m_out rst (l # parents) cs os)"
| "to_collapsed_stack_children l_out m_out rst parents [] os = os"
| "to_collapsed_stack_children l_out m_out rst parents (c # cs) os =
     to_collapsed_stack_children l_out m_out rst parents cs
       (to_collapsed_stack l_out m_out rst parents c os)"

text \<open>The public \<^verbatim>\<open>to_collapsed_stacks(os, l_out, m_out)\<close>.\<close>

definition to_collapsed_stacks ::
  "('l, 'i, 'h) label_helper \<Rightarrow> ('i, 'm, 'h) recorder_t \<Rightarrow> string
     \<Rightarrow> ('l \<Rightarrow> string) \<Rightarrow> ('m \<Rightarrow> string) \<Rightarrow> ('i, 'm, 'h) recorder_t \<times> string" where
  "to_collapsed_stacks H r os l_out m_out =
     (let r = r\<lparr>m_recorder_internal_running := True\<rparr>;
          os = to_collapsed_stack l_out m_out (lh_restore H (m_label_helper r)) [] (m_root r) os
      in (r\<lparr>m_recorder_internal_running := False\<rparr>, os))"

text \<open>
  \<^verbatim>\<open>report_entry_t\<close> and the \<^verbatim>\<open>std::unordered_map\<close> of the report. For \<^verbatim>\<open>const char *\<close>
  labels the key of the C++ map is the pointer \<^verbatim>\<open>restore\<close> returns; the model keys the
  map by the restored label itself.
\<close>

record 'm report_entry_t =
  self :: 'm
  total :: 'm

text \<open>
  The private \<^verbatim>\<open>to_report(node, report, op)\<close>, which returns the node's total; the second
  function is its loop over the children, with the total accumulated so far.
\<close>

fun to_report_node ::
  "('m \<Rightarrow> 'm \<Rightarrow> 'm) \<Rightarrow> ('i \<Rightarrow> 'l) \<Rightarrow> ('i, 'm) measure_node_t
     \<Rightarrow> ('l \<rightharpoonup> 'm report_entry_t) \<Rightarrow> 'm \<times> ('l \<rightharpoonup> 'm report_entry_t)"
and to_report_children ::
  "('m \<Rightarrow> 'm \<Rightarrow> 'm) \<Rightarrow> ('i \<Rightarrow> 'l) \<Rightarrow> ('i, 'm) measure_node_t list \<Rightarrow> 'm
     \<Rightarrow> ('l \<rightharpoonup> 'm report_entry_t) \<Rightarrow> 'm \<times> ('l \<rightharpoonup> 'm report_entry_t)" where
  "to_report_node op rst (Node l v cs) report =
     (case to_report_children op rst cs v report of
        (tot, report) \<Rightarrow>
          (let label = rst l
           in (tot,
               (case report label of
                  Some it \<Rightarrow>
                    report(label \<mapsto> \<lparr>self = op (self it) v, total = op (total it) tot\<rparr>)
                | None \<Rightarrow> report(label \<mapsto> \<lparr>self = v, total = tot\<rparr>)))))"
| "to_report_children op rst [] tot report = (tot, report)"
| "to_report_children op rst (c # cs) tot report =
     (case to_report_node op rst c report of
        (t, report) \<Rightarrow> to_report_children op rst cs (op tot t) report)"


section \<open>The overlay on a recorder\<close>

text \<open>
  A recorder with \<^verbatim>\<open>heap_usage_t\<close> measures is the \<^verbatim>\<open>counter_interface_t\<close> that
  \<^verbatim>\<open>get_heap_counter()\<close> returns: the overlay reads its flag and writes through \<^verbatim>\<open>cnt()\<close>.
\<close>

definition get_heap_counter ::
  "('i, heap_usage_t, 'h) recorder_t \<Rightarrow> (bool \<times> heap_usage_t) option" where
  "get_heap_counter r =
     (case cnt r of None \<Rightarrow> None | Some hu \<Rightarrow> Some (recorder_internal_running r, hu))"

definition put_heap_counter ::
  "(bool \<times> heap_usage_t) option \<Rightarrow> ('i, heap_usage_t, 'h) recorder_t
     \<Rightarrow> ('i, heap_usage_t, 'h) recorder_t" where
  "put_heap_counter c r = (case c of None \<Rightarrow> r | Some (running, hu) \<Rightarrow> cnt_update (\<lambda>_. hu) r)"

definition recorder_new ::
  "bool \<Rightarrow> ('i, heap_usage_t, 'h) recorder_t \<Rightarrow> 64 word
     \<Rightarrow> error + (block_header \<times> ('i, heap_usage_t, 'h) recorder_t)" where
  "recorder_new malloc_ok r n =
     (case operator_new malloc_ok (get_heap_counter r) n of
        Inl e \<Rightarrow> Inl e
      | Inr (hdr, c) \<Rightarrow> Inr (hdr, put_heap_counter c r))"

definition recorder_delete ::
  "('i, heap_usage_t, 'h) recorder_t \<Rightarrow> block_header option
     \<Rightarrow> ('i, heap_usage_t, 'h) recorder_t" where
  "recorder_delete r p = put_heap_counter (snd (operator_delete (get_heap_counter r) p)) r"

fun recorder_heap_run ::
  "('i, heap_usage_t, 'h) recorder_t \<Rightarrow> heap_op list
     \<Rightarrow> error + ('i, heap_usage_t, 'h) recorder_t" where
  "recorder_heap_run r [] = Inr r"
| "recorder_heap_run r (New ok n # xs) =
     (case recorder_new ok r n of
        Inl e \<Rightarrow> Inl e
      | Inr (hdr, r') \<Rightarrow> recorder_heap_run r' xs)"
| "recorder_heap_run r (Delete p # xs) = recorder_heap_run (recorder_delete r p) xs"

text \<open>
  \<^verbatim>\<open>begin_scope\<close> with the overlay linked in: \<open>bookkeeping\<close> are the allocations and
  releases the body itself causes (\<^verbatim>\<open>new measure_node_t\<close>, the growth of the \<^verbatim>\<open>children\<close>
  vector, the nodes of the interner's hash set). They reach the overlay after the flag
  is set and before \<^verbatim>\<open>m_current_node\<close> is moved and the flag cleared.
\<close>

definition begin_scope_hooked ::
  "('l, 'i, 'h) label_helper \<Rightarrow> heap_op list \<Rightarrow> allocation_t
     \<Rightarrow> ('i, heap_usage_t, 'h) recorder_t \<Rightarrow> 'l
     \<Rightarrow> error + ('i, heap_usage_t, 'h) recorder_t" where
  "begin_scope_hooked H bookkeeping a r label =
     (case recorder_heap_run (r\<lparr>m_recorder_internal_running := True\<rparr>) bookkeeping of
        Inl e \<Rightarrow> Inl e
      | Inr r1 \<Rightarrow>
          (case begin_scope_body H a r1 label of
             Inl e \<Rightarrow> Inl e
           | Inr r' \<Rightarrow> Inr (r'\<lparr>m_recorder_internal_running := False\<rparr>)))"

section \<open>Trees, labels and the states of a recorder\<close>

text \<open>The labels met on the way from a node down a path, the node's own label first.\<close>

fun labels_on_path :: "('i, 'm) measure_node_t \<Rightarrow> nat list \<Rightarrow> 'i list" where
  "labels_on_path n [] = [m_label n]"
| "labels_on_path n (k # ks) =
     m_label n # (if k < length (m_children n) then labels_on_path (m_children n ! k) ks else [])"

text \<open>
  \<open>tree_all_labels P t\<close>: at every node of \<open>t\<close>, \<open>P\<close> holds of the node's label and the
  list of its children's labels.
\<close>

fun tree_all_labels :: "('i \<Rightarrow> 'i list \<Rightarrow> bool) \<Rightarrow> ('i, 'm) measure_node_t \<Rightarrow> bool" where
  "tree_all_labels P (Node l v cs) =
     (P l (map m_label cs) \<and> list_all (tree_all_labels P) cs)"

fun count_nodes :: "('i, 'm) measure_node_t \<Rightarrow> nat" where
  "count_nodes (Node l v cs) = Suc (sum_list (map count_nodes cs))"

text \<open>
  Two stored labels compare equal when \<^verbatim>\<open>equal\<close> accepts the first against the external
  form of the second. \<open>no_equal_labels eq ls\<close>: no two entries of \<open>ls\<close> compare equal, in
  either order.
\<close>

definition labels_compare_equal :: "('l, 'i, 'h) label_helper \<Rightarrow> 'h \<Rightarrow> 'i \<Rightarrow> 'i \<Rightarrow> bool" where
  "labels_compare_equal H h l1 l2 = lh_equal H h l1 (lh_restore H h l2)"

fun no_equal_labels :: "('i \<Rightarrow> 'i \<Rightarrow> bool) \<Rightarrow> 'i list \<Rightarrow> bool" where
  "no_equal_labels eq [] = True"
| "no_equal_labels eq (l # ls) =
     (list_all (\<lambda>l'. \<not> eq l l' \<and> \<not> eq l' l) ls \<and> no_equal_labels eq ls)"

text \<open>
  What the recorder relies on in a label helper. \<open>I\<close> is the invariant of the helper's
  data, \<open>V h l\<close> says that the stored label \<open>l\<close> is one the helper has handed out, and
  \<open>norm\<close> maps a caller's label to the content that counts (for \<^verbatim>\<open>const char *\<close> the bytes
  before the terminator; the identity otherwise):
  \<^item> \<^verbatim>\<open>equal\<close> holds exactly when the stored label restores to the content of the label
    it is compared with, and what \<^verbatim>\<open>restore\<close> returns is such a content;
  \<^item> a successful \<^verbatim>\<open>save\<close> keeps the invariant, hands out a label that restores to the
    content saved, and changes neither the validity nor the restored form of the labels
    handed out before.
\<close>

definition label_contract ::
  "('l, 'i, 'h) label_helper \<Rightarrow> ('h \<Rightarrow> bool) \<Rightarrow> ('h \<Rightarrow> 'i \<Rightarrow> bool) \<Rightarrow> ('l \<Rightarrow> 'l) \<Rightarrow> bool" where
  "label_contract H I V norm \<longleftrightarrow>
     (\<forall>h i l. I h \<longrightarrow> V h i \<longrightarrow> lh_equal H h i l = (lh_restore H h i = norm l))
   \<and> (\<forall>h i. I h \<longrightarrow> V h i \<longrightarrow> norm (lh_restore H h i) = lh_restore H h i)
   \<and> (\<forall>h l i h'. I h \<longrightarrow> lh_save H h l = Inr (i, h') \<longrightarrow>
         I h' \<and> V h' i \<and> lh_restore H h' i = norm l
         \<and> (\<forall>j. V h j \<longrightarrow> V h' j \<and> lh_restore H h' j = lh_restore H h j))"

text \<open>
  The invariant of a recorder between two calls: the helper's invariant, the flag
  cleared, \<^verbatim>\<open>m_current_node\<close> pointing into the tree, and at every node a valid label and
  children whose labels are valid and restore to pairwise different contents.
\<close>

definition label_inv ::
  "('l, 'i, 'h) label_helper \<Rightarrow> ('h \<Rightarrow> 'i \<Rightarrow> bool) \<Rightarrow> 'h \<Rightarrow> 'i \<Rightarrow> 'i list \<Rightarrow> bool" where
  "label_inv H V h l ls \<longleftrightarrow>
     V h l \<and> list_all (V h) ls \<and> distinct (map (lh_restore H h) ls)"

definition recorder_inv ::
  "('l, 'i, 'h) label_helper \<Rightarrow> ('h \<Rightarrow> bool) \<Rightarrow> ('h \<Rightarrow> 'i \<Rightarrow> bool)
     \<Rightarrow> ('i, 'm, 'h) recorder_t \<Rightarrow> bool" where
  "recorder_inv H I V r \<longleftrightarrow>
     I (m_label_helper r)
   \<and> \<not> m_recorder_internal_running r
   \<and> node_at (m_root r) (m_current_node r) \<noteq> None
   \<and> tree_all_labels (label_inv H V (m_label_helper r)) (m_root r)"

text \<open>
  A change of one node that keeps its label and its children where they are (it may
  append children): \<open>emplace_back\<close> and \<open>set_value\<close> are such changes.
\<close>

definition keeps_children :: "(('i, 'm) measure_node_t \<Rightarrow> ('i, 'm) measure_node_t) \<Rightarrow> bool" where
  "keeps_children f \<longleftrightarrow>
     (\<forall>n. m_label (f n) = m_label n
        \<and> length (m_children n) \<le> length (m_children (f n))
        \<and> (\<forall>k<length (m_children n). m_children (f n) ! k = m_children n ! k))"

text \<open>
  The scopes that are open, innermost first, are the last nodes on the current path:
  the label of each restores to the content of the label its scope was opened with.
\<close>

definition open_scopes_match ::
  "('l, 'i, 'h) label_helper \<Rightarrow> ('l \<Rightarrow> 'l) \<Rightarrow> ('i, 'm, 'h) recorder_t \<Rightarrow> 'l list \<Rightarrow> bool" where
  "open_scopes_match H norm r st \<longleftrightarrow>
     length st \<le> length (m_current_node r)
   \<and> map (lh_restore H (m_label_helper r))
        (take (length st) (rev (labels_on_path (m_root r) (m_current_node r)))) = map norm st"

text \<open>
  A sequence of calls in which every \<^verbatim>\<open>begin_scope\<close> gets the memory it asks for.
\<close>

fun allocated :: "('l, 'm) scope_op \<Rightarrow> bool" where
  "allocated (Begin a l) = (a = Allocated)"
| "allocated End = True"
| "allocated (EndL l) = True"
| "allocated (Cnt f) = True"

definition allocations_succeed :: "('l, 'm) scope_op list \<Rightarrow> bool" where
  "allocations_succeed ops = list_all allocated ops"

section \<open>What the reports are to contain\<close>

text \<open>
  These definitions follow the words of the specification, to be compared with the
  functions above. \<open>join_with sep\<close> joins texts with a separator. \<open>preorder_paths\<close> lists
  the nodes of a tree in pre-order, each with the labels from the root down to it and
  its measure. \<open>collapsed_line\<close> is the line for one node: the labels joined by \<open>;\<close>, a
  space, the measure, a newline.
\<close>

fun join_with :: "string \<Rightarrow> string list \<Rightarrow> string" where
  "join_with sep [] = []"
| "join_with sep [x] = x"
| "join_with sep (x # y # zs) = x @ sep @ join_with sep (y # zs)"

fun preorder_paths :: "'i list \<Rightarrow> ('i, 'm) measure_node_t \<Rightarrow> ('i list \<times> 'm) list" where
  "preorder_paths pre (Node l v cs) =
     (pre @ [l], v) # concat (map (preorder_paths (pre @ [l])) cs)"

definition collapsed_line ::
  "('l \<Rightarrow> string) \<Rightarrow> ('m \<Rightarrow> string) \<Rightarrow> ('i \<Rightarrow> 'l) \<Rightarrow> 'i list \<times> 'm \<Rightarrow> string" where
  "collapsed_line l_out m_out rst x =
     join_with '';'' (map (\<lambda>l. l_out (rst l)) (fst x)) @ '' '' @ m_out (snd x) @ newline"

text \<open>
  The total of a node: its own measure combined, child after child, with the totals of
  its children. \<open>tree_values\<close> lists the measures of all nodes, \<open>postorder\<close> the nodes
  themselves, children before their parent.
\<close>

fun total_of :: "('m \<Rightarrow> 'm \<Rightarrow> 'm) \<Rightarrow> ('i, 'm) measure_node_t \<Rightarrow> 'm" where
  "total_of op (Node l v cs) = foldl op v (map (total_of op) cs)"

fun tree_values :: "('i, 'm) measure_node_t \<Rightarrow> 'm list" where
  "tree_values (Node l v cs) = v # concat (map tree_values cs)"

fun postorder :: "('i, 'm) measure_node_t \<Rightarrow> ('i, 'm) measure_node_t list" where
  "postorder (Node l v cs) = concat (map postorder cs) @ [Node l v cs]"

text \<open>
  The occurrences of a label in a tree, in post-order, and the entry that combines a
  non-empty list of occurrences: \<open>self\<close> from their own measures, \<open>total\<close> from their
  totals, the first occurrence starting each.
\<close>

definition occurrences ::
  "('i \<Rightarrow> 'l) \<Rightarrow> 'l \<Rightarrow> ('i, 'm) measure_node_t \<Rightarrow> ('i, 'm) measure_node_t list" where
  "occurrences rst label t = filter (\<lambda>n. rst (m_label n) = label) (postorder t)"

fun combined_entry ::
  "('m \<Rightarrow> 'm \<Rightarrow> 'm) \<Rightarrow> ('i, 'm) measure_node_t list \<Rightarrow> 'm report_entry_t option" where
  "combined_entry op [] = None"
| "combined_entry op (n # ns) =
     Some \<lparr>self = foldl op (m_value n) (map m_value ns),
           total = foldl op (total_of op n) (map (total_of op) ns)\<rparr>"

text \<open>
  One step of the report's bookkeeping seen from one label: the entry of the label
  before and after a node with that label has been handled.
\<close>

definition add_occurrence ::
  "('m \<Rightarrow> 'm \<Rightarrow> 'm) \<Rightarrow> 'm report_entry_t option \<Rightarrow> ('i, 'm) measure_node_t
     \<Rightarrow> 'm report_entry_t option" where
  "add_occurrence op e n =
     (case e of
        None \<Rightarrow> Some \<lparr>self = m_value n, total = total_of op n\<rparr>
      | Some it \<Rightarrow>
          Some \<lparr>self = op (self it) (m_value n), total = op (total it) (total_of op n)\<rparr>)"

section \<open>The states of a string database\<close>

text \<open>
  The content a stored entry stands for, and what holds of every entry of a database
  built by the constructor and \<^verbatim>\<open>push_back\<close>: it is an \<open>IDX_SET\<close> entry, its offset lies in
  the buffer, the string there is terminated inside the buffer, and its hash is the
  hash of that string.
\<close>

fun entry_content :: "string \<Rightarrow> hashset_entry_t \<Rightarrow> string" where
  "entry_content data (IDX_SET idx h) = c_str (drop idx data)"
| "entry_content data (STRING_SET str base) = c_str str"

fun entry_ok :: "string \<Rightarrow> hashset_entry_t \<Rightarrow> bool" where
  "entry_ok data (IDX_SET idx h) =
     (idx < length data \<and> NUL \<in> set (drop idx data)
      \<and> h = calculate_hash (c_str (drop idx data)))"
| "entry_ok data (STRING_SET str base) = False"

text \<open>
  The invariant: every entry is as above, no two entries stand for the same content,
  and the bytes in use fit the capacity.
\<close>

definition string_db_inv :: "string_db_t \<Rightarrow> bool" where
  "string_db_inv db \<longleftrightarrow>
     list_all (entry_ok (m_data db)) (m_dict db)
   \<and> distinct (map (entry_content (m_data db)) (m_dict db))
   \<and> m_size db \<le> m_capacity db"

text \<open>\<open>valid_idx db idx\<close>: \<open>idx\<close> is the offset of a string the database has interned.\<close>

fun has_idx :: "nat \<Rightarrow> hashset_entry_t \<Rightarrow> bool" where
  "has_idx i (IDX_SET idx h) = (idx = i)"
| "has_idx i (STRING_SET str base) = False"

definition valid_idx :: "string_db_t \<Rightarrow> nat \<Rightarrow> bool" where
  "valid_idx db idx = list_ex (has_idx idx) (m_dict db)"

text \<open>The capacity \<^verbatim>\<open>push_back\<close> asks \<^verbatim>\<open>realloc\<close> for when \<open>str\<close> does not fit.\<close>

definition grown_capacity :: "string_db_t \<Rightarrow> string \<Rightarrow> nat" where
  "grown_capacity db str = max (m_capacity db * 3 div 2) (strlen str + 1 + m_size db)"

text \<open>A run of \<^verbatim>\<open>push_back\<close> calls, which stops at the first call that fails.\<close>

fun push_all ::
  "(nat \<Rightarrow> realloc_result) \<Rightarrow> string_db_t \<Rightarrow> string list \<Rightarrow> error + string_db_t" where
  "push_all realloc db [] = Inr db"
| "push_all realloc db (s # ss) =
     (case push_back realloc db s of
        Inl e \<Rightarrow> Inl e
      | Inr (idx, db') \<Rightarrow> push_all realloc db' ss)"

section \<open>Properties of the heap overlay\<close>

subsection \<open>Arithmetic of the counters\<close>

lemma unat_ucast_32_64: "unat (ucast (b :: 32 word) :: 64 word) = unat b"
proof -
  have "unat b < 2 ^ 32" using unsigned_less [of b] by simp
  then have "unat b < 2 ^ 64" by simp
  then show ?thesis
    by (simp add: unsigned_ucast_eq take_bit_nat_eq_self_iff)
qed

lemma unat_allocated_bytes: "unat (allocated_bytes n) = min (unat n) (2 ^ 32 - 1)"
proof (cases "n > max_uint32")
  case True
  then have "unat n > 4294967295"
    by (simp add: max_uint32_def word_less_nat_alt)
  with True show ?thesis
    by (simp add: allocated_bytes_def max_uint32_def)
next
  case False
  then have le: "unat n \<le> 4294967295"
    by (simp add: max_uint32_def word_less_nat_alt not_less)
  then have "unat (ucast n :: 32 word) = unat n"
    by (simp add: unsigned_ucast_eq take_bit_nat_eq_self_iff)
  with False le show ?thesis
    by (simp add: allocated_bytes_def)
qed

lemma count_new_fields:
  "total_allocations (count_new b hu) = total_allocations hu + ucast b"
  "current_allocations (count_new b hu) = current_allocations hu + ucast b"
  "peak_allocations (count_new b hu) =
     max (peak_allocations hu) (current_allocations hu + ucast b)"
  "bad_deallocations (count_new b hu) = bad_deallocations hu"
  by (simp_all add: count_new_def)

lemma unat_current_count_new:
  "unat (current_allocations hu) + unat b < 2 ^ 64 \<Longrightarrow>
   unat (current_allocations (count_new b hu)) = unat (current_allocations hu) + unat b"
  using unat_add_lem [of "current_allocations hu" "ucast b :: 64 word"]
  by (simp add: count_new_fields unat_ucast_32_64)

lemma peak_ge_current_count_new:
  "current_allocations (count_new b hu) \<le> peak_allocations (count_new b hu)"
  by (simp add: count_new_fields)

lemma peak_mono_count_new:
  "peak_allocations hu \<le> peak_allocations (count_new b hu)"
  by (simp add: count_new_fields)

lemma operator_new_counted:
  "operator_new True (Some (False, hu)) n =
     Inr (\<lparr>hdr_magic = ALLOC_MAGIC_PATTERN, hdr_bytes = allocated_bytes n\<rparr>,
          Some (False, count_new (allocated_bytes n) hu))"
  by (simp add: operator_new_def)

lemma count_delete_tagged:
  "count_delete \<lparr>hdr_magic = ALLOC_MAGIC_PATTERN, hdr_bytes = b\<rparr> hu =
     hu\<lparr>current_allocations := current_allocations hu - ucast b\<rparr>"
  by (simp add: count_delete_def)

subsection \<open>N allocations, M frees\<close>

lemma new_n_counts:
  "unat (current_allocations hu) + N * unat (allocated_bytes S) < 2 ^ 64 \<Longrightarrow>
   \<exists>hu1. new_n N S (Some (False, hu)) =
            Inr (replicate N \<lparr>hdr_magic = ALLOC_MAGIC_PATTERN, hdr_bytes = allocated_bytes S\<rparr>,
                 Some (False, hu1))
        \<and> unat (current_allocations hu1) =
            unat (current_allocations hu) + N * unat (allocated_bytes S)
        \<and> total_allocations hu1 = total_allocations hu + of_nat N * ucast (allocated_bytes S)
        \<and> peak_allocations hu \<le> peak_allocations hu1
        \<and> (0 < N \<longrightarrow> current_allocations hu1 \<le> peak_allocations hu1)
        \<and> bad_deallocations hu1 = bad_deallocations hu"
proof (induction N arbitrary: hu)
  case 0
  then show ?case by simp
next
  case (Suc N)
  let ?b = "allocated_bytes S"
  let ?h = "\<lparr>hdr_magic = ALLOC_MAGIC_PATTERN, hdr_bytes = ?b\<rparr>"
  let ?hu' = "count_new ?b hu"
  from Suc.prems have small: "unat (current_allocations hu) + unat ?b < 2 ^ 64"
    by simp
  have cur': "unat (current_allocations ?hu') = unat (current_allocations hu) + unat ?b"
    by (rule unat_current_count_new [OF small])
  with Suc.prems have "unat (current_allocations ?hu') + N * unat ?b < 2 ^ 64"
    by simp
  from Suc.IH [OF this] obtain hu1 where
    run: "new_n N S (Some (False, ?hu')) = Inr (replicate N ?h, Some (False, hu1))"
    and cur: "unat (current_allocations hu1) = unat (current_allocations ?hu') + N * unat ?b"
    and tot: "total_allocations hu1 = total_allocations ?hu' + of_nat N * ucast ?b"
    and peak: "peak_allocations ?hu' \<le> peak_allocations hu1"
    and pc: "0 < N \<longrightarrow> current_allocations hu1 \<le> peak_allocations hu1"
    and bad: "bad_deallocations hu1 = bad_deallocations ?hu'"
    by blast
  have pc': "current_allocations hu1 \<le> peak_allocations hu1"
  proof (cases "N = 0")
    case True
    with cur have "current_allocations hu1 = current_allocations ?hu'"
      by (simp add: word_unat_eq_iff)
    with peak peak_ge_current_count_new [of ?b hu] show ?thesis by simp
  next
    case False
    with pc show ?thesis by simp
  qed
  have "new_n (Suc N) S (Some (False, hu)) = Inr (replicate (Suc N) ?h, Some (False, hu1))"
    by (simp add: operator_new_counted run)
  moreover have
    "unat (current_allocations hu1) = unat (current_allocations hu) + Suc N * unat ?b"
    using cur cur' by simp
  moreover have "total_allocations hu1 = total_allocations hu + of_nat (Suc N) * ucast ?b"
    using tot by (simp add: count_new_fields algebra_simps)
  moreover have "peak_allocations hu \<le> peak_allocations hu1"
    using peak peak_mono_count_new [of hu ?b] by simp
  moreover have "bad_deallocations hu1 = bad_deallocations hu"
    using bad by (simp add: count_new_fields)
  ultimately show ?case using pc' by blast
qed

lemma delete_blocks_counts:
  "M * unat b \<le> unat (current_allocations hu) \<Longrightarrow>
   \<exists>hu2. delete_blocks (replicate M \<lparr>hdr_magic = ALLOC_MAGIC_PATTERN, hdr_bytes = b\<rparr>)
            (Some (False, hu)) = Some (False, hu2)
        \<and> unat (current_allocations hu2) = unat (current_allocations hu) - M * unat b
        \<and> peak_allocations hu2 = peak_allocations hu
        \<and> total_allocations hu2 = total_allocations hu
        \<and> bad_deallocations hu2 = bad_deallocations hu"
proof (induction M arbitrary: hu)
  case 0
  then show ?case by simp
next
  case (Suc M)
  let ?h = "\<lparr>hdr_magic = ALLOC_MAGIC_PATTERN, hdr_bytes = b\<rparr>"
  let ?hu' = "hu\<lparr>current_allocations := current_allocations hu - ucast b\<rparr>"
  from Suc.prems have le: "unat b \<le> unat (current_allocations hu)" by simp
  then have "(ucast b :: 64 word) \<le> current_allocations hu"
    by (simp add: word_le_nat_alt unat_ucast_32_64)
  then have cur': "unat (current_allocations ?hu') = unat (current_allocations hu) - unat b"
    by (simp add: unat_sub unat_ucast_32_64)
  with Suc.prems have "M * unat b \<le> unat (current_allocations ?hu')" by simp
  from Suc.IH [OF this] obtain hu2 where
    "delete_blocks (replicate M ?h) (Some (False, ?hu')) = Some (False, hu2)"
    "unat (current_allocations hu2) = unat (current_allocations ?hu') - M * unat b"
    "peak_allocations hu2 = peak_allocations ?hu'"
    "total_allocations hu2 = total_allocations ?hu'"
    "bad_deallocations hu2 = bad_deallocations ?hu'"
    by blast
  with cur' show ?case
    by (simp add: operator_delete_def count_delete_tagged)
qed

text \<open>
  Claim C7, as amended. \<^verbatim>\<open>operator new(n)\<close> writes the tag and the size saturated to 32
  bits, \<open>min n (2^32 - 1)\<close>, in front of the block and, when the counter is not busy, adds
  that saturated size (not \<open>n\<close>) to \<open>total\<close> and \<open>current\<close> and sets \<open>peak\<close> to the larger
  of \<open>peak\<close> and the new \<open>current\<close>. With \<open>b\<close> the saturated size of \<open>S\<close>: after \<open>N\<close>
  allocations of size \<open>S\<close> that do not overflow the 64-bit counter, \<open>current\<close> has grown
  by \<open>N * b\<close> and \<open>peak\<close> is at least \<open>N * b\<close>; after \<open>M \<le> N\<close> frees of those blocks
  \<open>current\<close> stands \<open>(N - M) * b\<close> above its start.
\<close>

theorem operator_new_conservation:
  assumes "unat (current_allocations hu) + N * unat (allocated_bytes S) < 2 ^ 64"
    and "M \<le> N"
  shows
    "operator_new True (Some (False, hu)) n =
       Inr (\<lparr>hdr_magic = ALLOC_MAGIC_PATTERN, hdr_bytes = allocated_bytes n\<rparr>,
            Some (False,
              hu\<lparr>total_allocations := total_allocations hu + ucast (allocated_bytes n),
                 current_allocations := current_allocations hu + ucast (allocated_bytes n),
                 peak_allocations :=
                   max (peak_allocations hu)
                     (current_allocations hu + ucast (allocated_bytes n))\<rparr>))
     \<and> unat (allocated_bytes n) = min (unat n) (2 ^ 32 - 1)
     \<and> (\<exists>hdrs hu1 hu2.
          new_n N S (Some (False, hu)) = Inr (hdrs, Some (False, hu1))
        \<and> length hdrs = N
        \<and> unat (current_allocations hu1) =
            unat (current_allocations hu) + N * unat (allocated_bytes S)
        \<and> N * unat (allocated_bytes S) \<le> unat (peak_allocations hu1)
        \<and> delete_blocks (take M hdrs) (Some (False, hu1)) = Some (False, hu2)
        \<and> unat (current_allocations hu2) =
            unat (current_allocations hu) + (N - M) * unat (allocated_bytes S))"
proof -
  let ?b = "allocated_bytes S"
  let ?h = "\<lparr>hdr_magic = ALLOC_MAGIC_PATTERN, hdr_bytes = ?b\<rparr>"
  from new_n_counts [OF assms(1)] obtain hu1 where
    run: "new_n N S (Some (False, hu)) = Inr (replicate N ?h, Some (False, hu1))"
    and cur: "unat (current_allocations hu1) = unat (current_allocations hu) + N * unat ?b"
    and pc: "0 < N \<longrightarrow> current_allocations hu1 \<le> peak_allocations hu1"
    by blast
  have peak: "N * unat ?b \<le> unat (peak_allocations hu1)"
  proof (cases "N = 0")
    case True
    then show ?thesis by simp
  next
    case False
    with pc have "unat (current_allocations hu1) \<le> unat (peak_allocations hu1)"
      by (simp add: word_le_nat_alt)
    with cur show ?thesis by simp
  qed
  from assms(2) have "M * unat ?b \<le> N * unat ?b" by (rule mult_le_mono1)
  with cur have "M * unat ?b \<le> unat (current_allocations hu1)" by linarith
  from delete_blocks_counts [OF this] obtain hu2 where
    del: "delete_blocks (replicate M ?h) (Some (False, hu1)) = Some (False, hu2)"
    and cur2: "unat (current_allocations hu2) = unat (current_allocations hu1) - M * unat ?b"
    by blast
  from assms(2) have tk: "take M (replicate N ?h) = replicate M ?h"
    by (simp add: min_def)
  from assms(2) cur cur2 have
    "unat (current_allocations hu2) = unat (current_allocations hu) + (N - M) * unat ?b"
    by (simp add: diff_mult_distrib)
  with run cur peak del tk have
    "\<exists>hdrs hu1 hu2.
          new_n N S (Some (False, hu)) = Inr (hdrs, Some (False, hu1))
        \<and> length hdrs = N
        \<and> unat (current_allocations hu1) = unat (current_allocations hu) + N * unat ?b
        \<and> N * unat ?b \<le> unat (peak_allocations hu1)
        \<and> delete_blocks (take M hdrs) (Some (False, hu1)) = Some (False, hu2)
        \<and> unat (current_allocations hu2) = unat (current_allocations hu) + (N - M) * unat ?b"
    by (intro exI [of _ "replicate N ?h"] exI [of _ hu1] exI [of _ hu2]) simp
  moreover have "unat (allocated_bytes n) = min (unat n) (2 ^ 32 - 1)"
    by (rule unat_allocated_bytes)
  ultimately show ?thesis
    by (simp add: operator_new_counted count_new_def)
qed

theorem operator_new_conservation_witness:
  "unat (current_allocations heap_usage_init) + 3 * unat (allocated_bytes 100) < 2 ^ 64
   \<and> (2::nat) \<le> 3
   \<and> unat (allocated_bytes 100) = 100
   \<and> (\<exists>hdrs hu1 hu2.
          new_n 3 100 (Some (False, heap_usage_init)) = Inr (hdrs, Some (False, hu1))
        \<and> unat (current_allocations hu1) = 300
        \<and> 300 \<le> unat (peak_allocations hu1)
        \<and> delete_blocks (take 2 hdrs) (Some (False, hu1)) = Some (False, hu2)
        \<and> unat (current_allocations hu2) = 100)"
proof -
  have b: "unat (allocated_bytes 100) = 100"
    by (simp add: allocated_bytes_def max_uint32_def)
  have h: "unat (current_allocations heap_usage_init) + 3 * unat (allocated_bytes 100) < 2 ^ 64"
    by (simp add: b heap_usage_init_def)
  have m: "(2::nat) \<le> 3" by simp
  from operator_new_conservation [OF h m, of 100] obtain hdrs hu1 hu2 where
    "new_n 3 100 (Some (False, heap_usage_init)) = Inr (hdrs, Some (False, hu1))"
    "unat (current_allocations hu1) =
       unat (current_allocations heap_usage_init) + 3 * unat (allocated_bytes 100)"
    "3 * unat (allocated_bytes 100) \<le> unat (peak_allocations hu1)"
    "delete_blocks (take 2 hdrs) (Some (False, hu1)) = Some (False, hu2)"
    "unat (current_allocations hu2) =
       unat (current_allocations heap_usage_init) + (3 - 2) * unat (allocated_bytes 100)"
    by blast
  then have
    "\<exists>hdrs hu1 hu2.
          new_n 3 100 (Some (False, heap_usage_init)) = Inr (hdrs, Some (False, hu1))
        \<and> unat (current_allocations hu1) = 300
        \<and> 300 \<le> unat (peak_allocations hu1)
        \<and> delete_blocks (take 2 hdrs) (Some (False, hu1)) = Some (False, hu2)
        \<and> unat (current_allocations hu2) = 100"
    by (intro exI [of _ hdrs] exI [of _ hu1] exI [of _ hu2]) (simp add: b heap_usage_init_def)
  with b h show ?thesis by simp
qed

text \<open>
  The claim as stated fails for a request above \<open>2^32 - 1\<close> bytes: one allocation of
  \<open>2^32\<close> bytes on a fresh counter leaves \<open>current = 2^32 - 1\<close>, not \<open>2^32\<close>.
\<close>

theorem operator_new_adds_requested_size_counterexample:
  "new_n 1 0x100000000 (Some (False, heap_usage_init)) =
     Inr ([\<lparr>hdr_magic = ALLOC_MAGIC_PATTERN, hdr_bytes = 0xFFFFFFFF\<rparr>],
          Some (False,
            \<lparr>peak_allocations = 0xFFFFFFFF, total_allocations = 0xFFFFFFFF,
             current_allocations = 0xFFFFFFFF, bad_deallocations = 0\<rparr>))
   \<and> (0xFFFFFFFF :: 64 word) \<noteq> 0 + 0x100000000"
  by (simp add: operator_new_def count_new_def allocated_bytes_def max_uint32_def
      heap_usage_init_def)

subsection \<open>Peak and current\<close>

lemma count_delete_keeps_peak_ge_current:
  assumes "current_allocations hu \<le> peak_allocations hu"
    and "hdr_magic hdr = ALLOC_MAGIC_PATTERN \<longrightarrow>
           unat (hdr_bytes hdr) \<le> unat (current_allocations hu)"
  shows "current_allocations (count_delete hdr hu) \<le> peak_allocations (count_delete hdr hu)"
proof (cases "hdr_magic hdr = ALLOC_MAGIC_PATTERN")
  case True
  with assms(2) have "(ucast (hdr_bytes hdr) :: 64 word) \<le> current_allocations hu"
    by (simp add: word_le_nat_alt unat_ucast_32_64)
  then have "current_allocations hu - ucast (hdr_bytes hdr) \<le> current_allocations hu"
    by (simp add: word_sub_le)
  with assms(1) True show ?thesis
    by (simp add: count_delete_def)
next
  case False
  with assms(1) show ?thesis by (simp add: count_delete_def)
qed

lemma heap_run_keeps_peak_ge_current:
  "current_allocations hu \<le> peak_allocations hu \<Longrightarrow> underflow_free hu ops \<Longrightarrow>
   all_allocated ops \<Longrightarrow>
   \<exists>hu'. heap_run (Some (False, hu)) ops = Inr (Some (False, hu'))
        \<and> current_allocations hu' \<le> peak_allocations hu'"
proof (induction ops arbitrary: hu)
  case Nil
  then show ?case by simp
next
  case (Cons x xs)
  show ?case
  proof (cases x)
    case (New ok n)
    with Cons.prems have ok: ok
      and uf: "underflow_free (count_new (allocated_bytes n) hu) xs"
      and al: "all_allocated xs"
      by simp_all
    from Cons.IH [OF peak_ge_current_count_new uf al] New ok show ?thesis
      by (simp add: operator_new_def)
  next
    case (Delete p)
    show ?thesis
    proof (cases p)
      case None
      with Delete Cons.prems Cons.IH [of hu] show ?thesis
        by (simp add: operator_delete_def)
    next
      case (Some hdr)
      with Delete Cons.prems have
        g: "hdr_magic hdr = ALLOC_MAGIC_PATTERN \<longrightarrow>
              unat (hdr_bytes hdr) \<le> unat (current_allocations hu)"
        and uf: "underflow_free (count_delete hdr hu) xs" and al: "all_allocated xs"
        by simp_all
      from Cons.IH [OF count_delete_keeps_peak_ge_current [OF Cons.prems(1) g] uf al]
        Delete Some
      show ?thesis
        by (simp add: operator_delete_def)
    qed
  qed
qed

text \<open>
  As long as no deallocation of a tagged block takes \<open>current\<close> below zero (the size
  stored in the header is at most \<open>current\<close> at that moment), \<open>peak \<ge> current\<close> is kept
  by every run of overlay calls, and it holds right after every counted allocation. A
  deallocation of a block whose tag does not match releases the pointer as given, adds
  one to \<open>bad_deallocations\<close> and leaves \<open>current\<close>, \<open>peak\<close> and \<open>total\<close> as they are.
\<close>

lemma peak_ge_current_without_underflow:
  assumes "current_allocations hu \<le> peak_allocations hu"
    and "underflow_free hu ops" and "all_allocated ops"
  shows
    "(\<exists>hu'. heap_run (Some (False, hu)) ops = Inr (Some (False, hu'))
          \<and> current_allocations hu' \<le> peak_allocations hu')
     \<and> current_allocations (count_new b hu0) \<le> peak_allocations (count_new b hu0)
     \<and> (hdr_magic hdr \<noteq> ALLOC_MAGIC_PATTERN \<longrightarrow>
          operator_delete (Some (False, hu0)) (Some hdr) =
            (Some False,
             Some (False, hu0\<lparr>bad_deallocations := bad_deallocations hu0 + 1\<rparr>)))"
  using heap_run_keeps_peak_ge_current [OF assms] peak_ge_current_count_new [of b hu0]
  by (simp add: operator_delete_def count_delete_def)

lemma peak_ge_current_without_underflow_example:
  "current_allocations heap_usage_init \<le> peak_allocations heap_usage_init
   \<and> underflow_free heap_usage_init
       [New True 8, Delete (Some \<lparr>hdr_magic = 0, hdr_bytes = 5\<rparr>),
        Delete (Some \<lparr>hdr_magic = ALLOC_MAGIC_PATTERN, hdr_bytes = 8\<rparr>)]
   \<and> (\<exists>hu'. heap_run (Some (False, heap_usage_init))
              [New True 8, Delete (Some \<lparr>hdr_magic = 0, hdr_bytes = 5\<rparr>),
               Delete (Some \<lparr>hdr_magic = ALLOC_MAGIC_PATTERN, hdr_bytes = 8\<rparr>)] =
              Inr (Some (False, hu'))
          \<and> current_allocations hu' \<le> peak_allocations hu')
   \<and> operator_delete (Some (False, heap_usage_init)) (Some \<lparr>hdr_magic = 0, hdr_bytes = 5\<rparr>) =
       (Some False, Some (False, heap_usage_init\<lparr>bad_deallocations := 1\<rparr>))"
proof -
  let ?ops = "[New True 8, Delete (Some \<lparr>hdr_magic = 0, hdr_bytes = 5\<rparr>),
               Delete (Some \<lparr>hdr_magic = ALLOC_MAGIC_PATTERN, hdr_bytes = 8\<rparr>)]"
  have i: "current_allocations heap_usage_init \<le> peak_allocations heap_usage_init"
    by (simp add: heap_usage_init_def)
  have u: "underflow_free heap_usage_init ?ops"
    by (simp add: heap_usage_init_def count_new_def count_delete_def allocated_bytes_def
        max_uint32_def ALLOC_MAGIC_PATTERN_def)
  have a: "all_allocated ?ops" by simp
  have m: "hdr_magic \<lparr>hdr_magic = 0, hdr_bytes = 5\<rparr> \<noteq> ALLOC_MAGIC_PATTERN"
    by (simp add: ALLOC_MAGIC_PATTERN_def)
  from peak_ge_current_without_underflow
         [OF i u a, of 0 heap_usage_init "\<lparr>hdr_magic = 0, hdr_bytes = 5\<rparr>"] m i u
  show ?thesis
    by (simp add: heap_usage_init_def)
qed

text \<open>
  Claim C8: in every state of a counter reachable through the overlay's allocate and
  deallocate operations \<open>peak_allocations \<ge> current_allocations\<close>, and frees never
  corrupt \<open>current\<close>. The code does not keep this. \<^verbatim>\<open>operator delete\<close> subtracts the size
  in the header from the counter of whichever scope is current, unsigned and with no
  check, also when the block was added to another scope's counter. Below, ten bytes
  are allocated inside scope \<open>1\<close> and freed after that scope has ended: the root's counter,
  which never counted an allocation, is left with \<open>current = 2^64 - 10\<close> above
  \<open>peak = 0\<close>. A later allocation of four bytes at the root then sets
  \<open>peak = max(peak, current) = 2^64 - 6\<close>, although \<open>total\<close>, every byte ever allocated
  there, is four. The first component of the result is the root's counter after the
  free, the second after the later allocation.
\<close>

theorem free_in_another_scope_corrupts_current:
  "(case recorder_ctor label_helper_primary True () heap_usage_init (0::nat) heap_usage_init of
      Inl e \<Rightarrow> None
    | Inr r0 \<Rightarrow>
        (case begin_scope label_helper_primary Allocated r0 1 of
           Inl e \<Rightarrow> None
         | Inr r1 \<Rightarrow>
             (case recorder_new True r1 10 of
                Inl e \<Rightarrow> None
              | Inr (hdr, r2) \<Rightarrow>
                  (case end_scope r2 of
                     Inl e \<Rightarrow> None
                   | Inr r3 \<Rightarrow>
                       (case recorder_new True (recorder_delete r3 (Some hdr)) 4 of
                          Inl e \<Rightarrow> None
                        | Inr (hdr', r5) \<Rightarrow>
                            Some (cnt (recorder_delete r3 (Some hdr)), cnt r5))))))
   = Some (Some \<lparr>peak_allocations = 0, total_allocations = 0,
                 current_allocations = 0xFFFFFFFFFFFFFFF6, bad_deallocations = 0\<rparr>,
           Some \<lparr>peak_allocations = 0xFFFFFFFFFFFFFFFA, total_allocations = 4,
                 current_allocations = 0xFFFFFFFFFFFFFFFA, bad_deallocations = 0\<rparr>)
   \<and> \<not> (0xFFFFFFFFFFFFFFF6 :: 64 word) \<le> 0"
  by (simp add: recorder_ctor_def label_helper_primary_def begin_scope_def
      begin_scope_body_def recorder_new_def get_heap_counter_def cnt_def operator_new_def
      put_heap_counter_def cnt_update_def set_value_def emplace_back_def end_scope_def
      recorder_delete_def operator_delete_def count_delete_def count_new_def
      allocated_bytes_def max_uint32_def heap_usage_init_def recorder_internal_running_def
      ALLOC_MAGIC_PATTERN_def scan_children.simps)

subsection \<open>A busy recorder\<close>

lemma update_at_same_value:
  "node_at t p = Some n \<Longrightarrow> update_at (set_value (\<lambda>_. m_value n)) p t = t"
proof (induction p arbitrary: t)
  case Nil
  then show ?case by (simp add: set_value_def)
next
  case (Cons k ks)
  obtain l v cs where t: "t = Node l v cs" by (cases t)
  with Cons.prems have k: "k < length cs" and at: "node_at (cs ! k) ks = Some n"
    by (simp_all split: if_splits)
  from Cons.IH [OF at] have "update_at (set_value (\<lambda>_. m_value n)) ks (cs ! k) = cs ! k" .
  with t k show ?case by simp
qed

lemma cnt_update_same: "cnt r = Some hu \<Longrightarrow> cnt_update (\<lambda>_. hu) r = r"
  by (auto simp: cnt_def cnt_update_def update_at_same_value)

lemma get_heap_counter_cases:
  "get_heap_counter r = None
   \<or> (\<exists>hu. cnt r = Some hu
          \<and> get_heap_counter r = Some (m_recorder_internal_running r, hu))"
  by (cases "cnt r") (simp_all add: get_heap_counter_def recorder_internal_running_def)

lemma recorder_new_busy:
  assumes "m_recorder_internal_running r"
  shows "recorder_new ok r n =
           (if ok then Inr (\<lparr>hdr_magic = ALLOC_MAGIC_PATTERN, hdr_bytes = allocated_bytes n\<rparr>, r)
            else Inl OutOfMemory)"
  using get_heap_counter_cases [of r] assms
  by (auto simp: recorder_new_def operator_new_def cnt_update_same put_heap_counter_def)

lemma recorder_delete_busy:
  assumes "m_recorder_internal_running r"
  shows "recorder_delete r p = r"
  using get_heap_counter_cases [of r] assms
  by (cases p)
    (auto simp: recorder_delete_def operator_delete_def cnt_update_same put_heap_counter_def)

lemma recorder_heap_run_busy:
  "m_recorder_internal_running r \<Longrightarrow> all_allocated ops \<Longrightarrow> recorder_heap_run r ops = Inr r"
proof (induction ops)
  case Nil
  then show ?case by simp
next
  case (Cons x xs)
  then show ?case
    by (cases x) (simp_all add: recorder_new_busy recorder_delete_busy)
qed

text \<open>
  Claim C9. While \<^verbatim>\<open>recorder_internal_running()\<close> is true, \<^verbatim>\<open>operator new\<close> and
  \<^verbatim>\<open>operator delete\<close> leave the counter they are given as it is, and on a recorder they
  leave the whole recorder (every node's counter) as it is. So the allocations and
  releases that \<^verbatim>\<open>begin_scope\<close> causes between setting and clearing the flag change
  nothing: with the overlay linked in, \<^verbatim>\<open>begin_scope\<close> has the result it has without it.
\<close>

theorem busy_recorder_counts_nothing:
  "(\<exists>hdr. operator_new True (Some (True, hu)) n = Inr (hdr, Some (True, hu)))
   \<and> snd (operator_delete (Some (True, hu)) p) = Some (True, hu)
   \<and> (m_recorder_internal_running r \<longrightarrow>
        (\<exists>hdr. recorder_new True r n = Inr (hdr, r)) \<and> recorder_delete r p = r)
   \<and> (all_allocated bookkeeping \<longrightarrow>
        begin_scope_hooked H bookkeeping a r1 label = begin_scope H a r1 label)"
proof -
  have "all_allocated bookkeeping \<Longrightarrow>
        recorder_heap_run (r1\<lparr>m_recorder_internal_running := True\<rparr>) bookkeeping =
          Inr (r1\<lparr>m_recorder_internal_running := True\<rparr>)"
    by (rule recorder_heap_run_busy) simp_all
  then have "all_allocated bookkeeping \<longrightarrow>
        begin_scope_hooked H bookkeeping a r1 label = begin_scope H a r1 label"
    by (simp add: begin_scope_hooked_def begin_scope_def)
  moreover have "snd (operator_delete (Some (True, hu)) p) = Some (True, hu)"
    by (cases p) (simp_all add: operator_delete_def)
  ultimately show ?thesis
    by (simp add: operator_new_def recorder_new_busy recorder_delete_busy)
qed

theorem busy_recorder_counts_nothing_witness:
  "all_allocated [New True 64, Delete None, New True 24]
   \<and> begin_scope_hooked label_helper_primary [New True 64, Delete None, New True 24]
         Allocated
         \<lparr>m_recorder_internal_running = False, m_label_helper = (),
          m_default_value = heap_usage_init, m_root = Node (0::nat) heap_usage_init [],
          m_current_node = []\<rparr> (1::nat)
       = Inr \<lparr>m_recorder_internal_running = False, m_label_helper = (),
              m_default_value = heap_usage_init,
              m_root = Node 0 heap_usage_init [Node 1 heap_usage_init []],
              m_current_node = [0]\<rparr>
   \<and> m_recorder_internal_running
         \<lparr>m_recorder_internal_running = True, m_label_helper = (),
          m_default_value = heap_usage_init, m_root = Node (0::nat) heap_usage_init [],
          m_current_node = []\<rparr>
   \<and> recorder_delete
         \<lparr>m_recorder_internal_running = True, m_label_helper = (),
          m_default_value = heap_usage_init, m_root = Node (0::nat) heap_usage_init [],
          m_current_node = []\<rparr>
         (Some \<lparr>hdr_magic = ALLOC_MAGIC_PATTERN, hdr_bytes = 64\<rparr>)
       = \<lparr>m_recorder_internal_running = True, m_label_helper = (),
          m_default_value = heap_usage_init, m_root = Node (0::nat) heap_usage_init [],
          m_current_node = []\<rparr>"
proof -
  let ?idle = "\<lparr>m_recorder_internal_running = False, m_label_helper = (),
               m_default_value = heap_usage_init, m_root = Node (0::nat) heap_usage_init [],
               m_current_node = []\<rparr>"
  let ?busy = "\<lparr>m_recorder_internal_running = True, m_label_helper = (),
               m_default_value = heap_usage_init, m_root = Node (0::nat) heap_usage_init [],
               m_current_node = []\<rparr>"
  let ?ops = "[New True 64, Delete None, New True 24]"
  have a: "all_allocated ?ops" by simp
  have b: "m_recorder_internal_running ?busy" by simp
  from busy_recorder_counts_nothing
         [of heap_usage_init 0 "Some \<lparr>hdr_magic = ALLOC_MAGIC_PATTERN, hdr_bytes = 64\<rparr>"
             ?busy ?ops label_helper_primary Allocated ?idle "1::nat"] a b
  have "begin_scope_hooked label_helper_primary ?ops Allocated ?idle 1 =
          begin_scope label_helper_primary Allocated ?idle 1"
    and "recorder_delete ?busy (Some \<lparr>hdr_magic = ALLOC_MAGIC_PATTERN, hdr_bytes = 64\<rparr>) = ?busy"
    by blast+
  moreover have "begin_scope label_helper_primary Allocated ?idle 1 =
       Inr \<lparr>m_recorder_internal_running = False, m_label_helper = (),
              m_default_value = heap_usage_init,
              m_root = Node 0 heap_usage_init [Node 1 heap_usage_init []],
              m_current_node = [0]\<rparr>"
    by (simp add: begin_scope_def begin_scope_body_def label_helper_primary_def
        emplace_back_def scan_children.simps)
  ultimately show ?thesis using a by simp
qed

section \<open>Properties of the string database\<close>

subsection \<open>C strings and hashes\<close>

lemma c_str_idem [simp]: "c_str (c_str s) = c_str s"
  by (simp add: c_str_def)

lemma NUL_notin_c_str [simp]: "NUL \<notin> set (c_str s)"
  by (auto simp: c_str_def dest: set_takeWhileD)

lemma c_str_append_NUL [simp]: "c_str (c_str s @ NUL # rest) = c_str s"
proof -
  have "takeWhile (\<lambda>c. c \<noteq> NUL) (c_str s @ NUL # rest) = c_str s"
    by (rule takeWhile_tail [THEN trans, rotated]) (auto dest: set_takeWhileD simp: c_str_def)
  then show ?thesis by (simp add: c_str_def)
qed

lemma c_str_terminated: "NUL \<in> set s \<Longrightarrow> c_str (s @ t) = c_str s"
  by (simp add: c_str_def takeWhile_append1 [of NUL])

lemma calculate_hash_loop_c_str:
  "calculate_hash_loop h (c_str s) = calculate_hash_loop h s"
  by (induction s arbitrary: h) (simp_all add: c_str_def)

lemma calculate_hash_c_str [simp]: "calculate_hash (c_str s) = calculate_hash s"
  by (simp add: calculate_hash_def calculate_hash_loop_c_str)

subsection \<open>Lookups in the hash set\<close>

lemma entry_ok_IDX: "entry_ok data e \<Longrightarrow> \<exists>idx h. e = IDX_SET idx h"
  by (cases e) simp_all

lemma entry_ok_hash: "entry_ok data e \<Longrightarrow> entry_hash e = calculate_hash (entry_content data e)"
  by (cases e) simp_all

lemma uset_lookup_string:
  "list_all (entry_ok data) dict \<Longrightarrow>
   uset_lookup (STRING_SET str data) dict =
     Inr (find (\<lambda>e. entry_content data e = c_str str) dict)"
proof (induction dict)
  case Nil
  then show ?case by simp
next
  case (Cons e es)
  from Cons.prems have ok: "entry_ok data e" by simp
  from entry_ok_IDX [OF ok] obtain idx h where e: "e = IDX_SET idx h" by blast
  from ok e have h: "h = calculate_hash (c_str (drop idx data))" by simp
  show ?case
  proof (cases "c_str (drop idx data) = c_str str")
    case True
    with e h show ?thesis by (simp add: strcmp_eq_def)
  next
    case False
    with e Cons show ?thesis
      by (auto simp: strcmp_eq_def)
  qed
qed

lemma uset_lookup_idx:
  "list_all (entry_ok data) dict \<Longrightarrow>
   uset_lookup (IDX_SET idx h) dict =
     (if list_ex (\<lambda>e. entry_hash e = h) dict then Inl AssertionFailed else Inr None)"
proof (induction dict)
  case Nil
  then show ?case by simp
next
  case (Cons e es)
  from Cons.prems have ok: "entry_ok data e" by simp
  from entry_ok_IDX [OF ok] obtain idx' h' where e: "e = IDX_SET idx' h'" by blast
  with Cons show ?case by simp
qed

lemma find_content_Some:
  assumes "list_all (entry_ok data) dict"
    and "find (\<lambda>e. entry_content data e = c_str str) dict = Some e"
  shows "\<exists>idx h. e = IDX_SET idx h \<and> e \<in> set dict \<and> c_str (drop idx data) = c_str str"
proof -
  from assms(2) have mem: "e \<in> set dict" and c: "entry_content data e = c_str str"
    by (auto simp: find_Some_iff)
  from assms(1) mem have "entry_ok data e" by (simp add: list_all_iff)
  from entry_ok_IDX [OF this] obtain idx h where "e = IDX_SET idx h" by blast
  with mem c show ?thesis by simp
qed

lemma valid_idx_iff: "valid_idx db idx \<longleftrightarrow> (\<exists>h. IDX_SET idx h \<in> set (m_dict db))"
proof
  assume "valid_idx db idx"
  then obtain e where mem: "e \<in> set (m_dict db)" and hi: "has_idx idx e"
    by (auto simp: valid_idx_def list_ex_iff)
  from hi obtain h where "e = IDX_SET idx h" by (cases e) auto
  with mem show "\<exists>h. IDX_SET idx h \<in> set (m_dict db)" by blast
next
  assume "\<exists>h. IDX_SET idx h \<in> set (m_dict db)"
  then obtain h where "IDX_SET idx h \<in> set (m_dict db)" by blast
  moreover have "has_idx idx (IDX_SET idx h)" by simp
  ultimately show "valid_idx db idx"
    unfolding valid_idx_def list_ex_iff by blast
qed

subsection \<open>What \<^verbatim>\<open>push_back\<close> does\<close>

lemma push_back_found:
  assumes "string_db_inv db"
    and "find (\<lambda>e. entry_content (m_data db) e = c_str str) (m_dict db) = Some e"
  shows "\<exists>idx. push_back realloc db str = Inr (idx, db) \<and> get db idx = c_str str
             \<and> valid_idx db idx"
proof -
  from assms(1) have ok: "list_all (entry_ok (m_data db)) (m_dict db)"
    by (simp add: string_db_inv_def)
  from find_content_Some [OF ok assms(2)] obtain idx h where
    e: "e = IDX_SET idx h" and mem: "e \<in> set (m_dict db)"
    and c: "c_str (drop idx (m_data db)) = c_str str"
    by blast
  from e mem have "valid_idx db idx" by (auto simp: valid_idx_iff)
  with e c assms(2) show ?thesis
    by (simp add: push_back_def uset_find_def uset_lookup_string [OF ok] get_def)
qed

lemma push_back_new:
  assumes "string_db_inv db"
    and "find (\<lambda>e. entry_content (m_data db) e = c_str str) (m_dict db) = None"
  shows "push_back realloc db str =
     (if strlen str + 1 + m_size db > m_capacity db
         \<and> realloc (grown_capacity db str) = Realloc_null then Inl OutOfMemory
      else if strlen str + 1 + m_size db > m_capacity db
         \<and> realloc (grown_capacity db str) = Realloc_moved then Inl DoubleFree
      else if list_ex (\<lambda>e. entry_hash e = calculate_hash str) (m_dict db)
        then Inl AssertionFailed
      else Inr (m_size db,
             \<lparr>m_dict = m_dict db @ [IDX_SET (m_size db) (calculate_hash str)],
              m_data = m_data db @ c_str str @ [NUL],
              m_capacity = (if strlen str + 1 + m_size db > m_capacity db
                            then grown_capacity db str else m_capacity db)\<rparr>))"
proof -
  from assms(1) have ok: "list_all (entry_ok (m_data db)) (m_dict db)"
    by (simp add: string_db_inv_def)
  have ok': "list_all (entry_ok (m_data db @ c_str str @ [NUL])) (m_dict db)"
    unfolding list_all_iff
  proof
    fix e assume "e \<in> set (m_dict db)"
    with ok have eo: "entry_ok (m_data db) e" by (simp add: list_all_iff)
    from entry_ok_IDX [OF eo] obtain idx h where e: "e = IDX_SET idx h" by blast
    with eo show "entry_ok (m_data db @ c_str str @ [NUL]) e"
      by (simp add: c_str_terminated)
  qed
  have eq: "db\<lparr>m_data := dt, m_dict := d\<rparr> = \<lparr>m_dict = d, m_data = dt, m_capacity = m_capacity db\<rparr>"
    for d dt by (cases db) simp
  have eq': "db\<lparr>m_capacity := c, m_data := dt, m_dict := d\<rparr> = \<lparr>m_dict = d, m_data = dt, m_capacity = c\<rparr>"
    for d dt c by (cases db) simp
  show ?thesis
  proof (cases "strlen str + 1 + m_size db > m_capacity db")
    case False
    with assms(2) show ?thesis
      by (simp add: push_back_def uset_find_def uset_lookup_string [OF ok] uset_emplace_def
          uset_lookup_idx [OF ok'] m_size_def Let_def eq)
  next
    case True
    then show ?thesis
      using assms(2)
      by (cases "realloc (grown_capacity db str)")
        (simp_all add: push_back_def uset_find_def uset_lookup_string [OF ok]
          uset_emplace_def uset_lookup_idx [OF ok'] m_size_def regrow_def grown_capacity_def
          Let_def eq')
  qed
qed

lemma entry_ok_append:
  assumes "entry_ok data e"
  shows "entry_ok (data @ rest) e" and "entry_content (data @ rest) e = entry_content data e"
proof -
  from entry_ok_IDX [OF assms] obtain idx h where e: "e = IDX_SET idx h" by blast
  with assms show "entry_ok (data @ rest) e" and
    "entry_content (data @ rest) e = entry_content data e"
    by (simp_all add: c_str_terminated)
qed

lemma get_append:
  assumes "entry_ok data (IDX_SET idx h)"
  shows "c_str (drop idx (data @ rest)) = c_str (drop idx data)"
  using assms by (simp add: c_str_terminated)

lemma valid_idx_unique:
  assumes inv: "string_db_inv db" and i: "valid_idx db i" and j: "valid_idx db j"
    and eq: "get db i = get db j"
  shows "i = j"
proof -
  from i j obtain h h' where mi: "IDX_SET i h \<in> set (m_dict db)"
    and mj: "IDX_SET j h' \<in> set (m_dict db)"
    by (auto simp: valid_idx_iff)
  from inv have "inj_on (entry_content (m_data db)) (set (m_dict db))"
    by (simp add: string_db_inv_def distinct_map)
  moreover from eq have "entry_content (m_data db) (IDX_SET i h) =
                         entry_content (m_data db) (IDX_SET j h')"
    by (simp add: get_def)
  ultimately have "IDX_SET i h = IDX_SET j h'"
    using mi mj by (rule inj_onD)
  then show ?thesis by simp
qed

lemma push_back_ok:
  assumes inv: "string_db_inv db" and pb: "push_back realloc db str = Inr (idx, db')"
  shows "string_db_inv db'" and "valid_idx db' idx" and "get db' idx = c_str str"
    and "\<And>j. valid_idx db j \<Longrightarrow> valid_idx db' j \<and> get db' j = get db j"
proof -
  let ?data = "m_data db" and ?dict = "m_dict db"
  from inv have ok: "list_all (entry_ok ?data) ?dict"
    and dist: "distinct (map (entry_content ?data) ?dict)"
    and cap: "m_size db \<le> m_capacity db"
    by (simp_all add: string_db_inv_def)
  have "string_db_inv db' \<and> valid_idx db' idx \<and> get db' idx = c_str str
        \<and> (\<forall>j. valid_idx db j \<longrightarrow> valid_idx db' j \<and> get db' j = get db j)"
  proof (cases "find (\<lambda>e. entry_content ?data e = c_str str) ?dict")
    case (Some e)
    from push_back_found [OF inv Some, of realloc] pb inv show ?thesis by auto
  next
    case None
    let ?new = "IDX_SET (m_size db) (calculate_hash str)"
    let ?data' = "?data @ c_str str @ [NUL]"
    from pb push_back_new [OF inv None, of realloc]
    have idx: "idx = m_size db"
      and dict': "m_dict db' = ?dict @ [?new]"
      and data': "m_data db' = ?data'"
      and cap': "m_capacity db' = (if strlen str + 1 + m_size db > m_capacity db
                            then grown_capacity db str else m_capacity db)"
      by (auto split: if_splits)
    have old_ok: "list_all (entry_ok ?data') ?dict"
      using ok entry_ok_append(1) [where rest = "c_str str @ [NUL]"]
      by (auto simp: list_all_iff)
    have old_content: "map (entry_content ?data') ?dict = map (entry_content ?data) ?dict"
      using ok entry_ok_append(2) [where rest = "c_str str @ [NUL]"]
      by (auto simp: list_all_iff)
    have new_ok: "entry_ok ?data' ?new"
      by (simp add: m_size_def)
    have new_content: "entry_content ?data' ?new = c_str str"
      by (simp add: m_size_def)
    from None have notin: "c_str str \<notin> set (map (entry_content ?data) ?dict)"
      by (auto simp: find_None_iff)
    have "distinct (map (entry_content ?data') (?dict @ [?new]))"
      using dist notin new_content unfolding map_append old_content by simp
    moreover have "m_size db' \<le> m_capacity db'"
      using cap by (auto simp: m_size_def data' cap' grown_capacity_def strlen_def)
    ultimately have inv': "string_db_inv db'"
      using old_ok new_ok by (simp add: string_db_inv_def dict' data')
    have v: "valid_idx db' idx"
      by (auto simp: valid_idx_iff dict' idx)
    have g: "get db' idx = c_str str"
      by (simp add: get_def data' idx m_size_def)
    have old: "valid_idx db' j \<and> get db' j = get db j" if "valid_idx db j" for j
    proof -
      from that obtain h where m: "IDX_SET j h \<in> set ?dict" by (auto simp: valid_idx_iff)
      with ok have "entry_ok ?data (IDX_SET j h)" unfolding list_all_iff by blast
      from get_append [OF this, of "c_str str @ [NUL]"] m show ?thesis
        by (auto simp: valid_idx_iff dict' get_def data')
    qed
    from inv' v g old show ?thesis by blast
  qed
  then show "string_db_inv db'" and "valid_idx db' idx" and "get db' idx = c_str str"
    and "\<And>j. valid_idx db j \<Longrightarrow> valid_idx db' j \<and> get db' j = get db j"
    by blast+
qed

text \<open>
  The \<^verbatim>\<open>const char *\<close> helper meets the label contract, with the invariant of the string
  database, the offsets it has handed out as the valid labels, and the C string of a
  label as its content.
\<close>

lemma label_contract_cstr:
  "label_contract (label_helper_cstr realloc) string_db_inv valid_idx c_str"
  unfolding label_contract_def
proof (intro conjI allI impI)
  fix h i l
  show "lh_equal (label_helper_cstr realloc) h i l =
          (lh_restore (label_helper_cstr realloc) h i = c_str l)"
    by (simp add: label_helper_cstr_def strcmp_eq_def get_def)
next
  fix h i
  show "c_str (lh_restore (label_helper_cstr realloc) h i) =
          lh_restore (label_helper_cstr realloc) h i"
    by (simp add: label_helper_cstr_def get_def)
next
  fix h l i h'
  assume inv: "string_db_inv h"
    and s: "lh_save (label_helper_cstr realloc) h l = Inr (i, h')"
  from s have pb: "push_back realloc h l = Inr (i, h')"
    by (simp add: label_helper_cstr_def split: sum.splits)
  note r = push_back_ok [OF inv pb]
  show "string_db_inv h'" by (rule r(1))
  show "valid_idx h' i" by (rule r(2))
  show "lh_restore (label_helper_cstr realloc) h' i = c_str l"
    using r(3) by (simp add: label_helper_cstr_def)
  fix j assume j: "valid_idx h j"
  from r(4) [OF j] show "valid_idx h' j" by simp
  from r(4) [OF j] show "lh_restore (label_helper_cstr realloc) h' j =
                           lh_restore (label_helper_cstr realloc) h j"
    by (simp add: label_helper_cstr_def)
qed

subsection \<open>Interning\<close>

text \<open>
  Whenever \<^verbatim>\<open>push_back\<close> returns, it interns: pushing the same content again (from
  whatever pointer) returns the same offset and changes nothing, and the offset keeps
  denoting the content through all later insertions that return. \<open>push_back_returns_iff\<close>
  says when it returns: the content is interned already, or else the buffer need not
  move and no stored string has the hash of the new one.
\<close>

lemma string_db_ctor_inv: "string_db_ctor True capacity = Inr db \<Longrightarrow> string_db_inv db"
  by (auto simp: string_db_ctor_def string_db_inv_def m_size_def)

lemma find_content_present:
  assumes inv: "string_db_inv db" and v: "valid_idx db idx" and g: "get db idx = c_str str"
  shows "\<exists>e. find (\<lambda>e. entry_content (m_data db) e = c_str str) (m_dict db) = Some e"
proof -
  from v obtain h where "IDX_SET idx h \<in> set (m_dict db)" by (auto simp: valid_idx_iff)
  moreover from g have "entry_content (m_data db) (IDX_SET idx h) = c_str str"
    by (simp add: get_def)
  ultimately have "find (\<lambda>e. entry_content (m_data db) e = c_str str) (m_dict db) \<noteq> None"
    by (auto simp: find_None_iff)
  then show ?thesis by auto
qed

lemma push_back_interned:
  assumes inv: "string_db_inv db" and v: "valid_idx db idx" and g: "get db idx = c_str str"
  shows "push_back realloc db str = Inr (idx, db)"
proof -
  from find_content_present [OF inv v g] obtain e where
    "find (\<lambda>e. entry_content (m_data db) e = c_str str) (m_dict db) = Some e" by blast
  from push_back_found [OF inv this, of realloc] obtain idx' where
    pb: "push_back realloc db str = Inr (idx', db)" and g': "get db idx' = c_str str"
    and v': "valid_idx db idx'"
    by blast
  from valid_idx_unique [OF inv v v'] g g' have "idx = idx'" by simp
  with pb show ?thesis by simp
qed

lemma push_back_twice:
  assumes inv: "string_db_inv db" and pb: "push_back realloc db str = Inr (idx, db')"
    and same: "c_str str' = c_str str"
  shows "push_back realloc' db' str' = Inr (idx, db')"
proof -
  note r = push_back_ok [OF inv pb]
  from r(3) same have "get db' idx = c_str str'" by simp
  from push_back_interned [OF r(1) r(2) this] show ?thesis .
qed

lemma push_all_keeps:
  "string_db_inv db \<Longrightarrow> valid_idx db idx \<Longrightarrow> push_all realloc db ss = Inr db' \<Longrightarrow>
   string_db_inv db' \<and> valid_idx db' idx \<and> get db' idx = get db idx"
proof (induction ss arbitrary: db)
  case Nil
  then show ?case by simp
next
  case (Cons s ss)
  from Cons.prems(3) obtain i db1 where pb: "push_back realloc db s = Inr (i, db1)"
    and rest: "push_all realloc db1 ss = Inr db'"
    by (auto split: sum.splits)
  note r = push_back_ok [OF Cons.prems(1) pb]
  from r(4) [OF Cons.prems(2)] have v1: "valid_idx db1 idx" and g1: "get db1 idx = get db idx"
    by simp_all
  from Cons.IH [OF r(1) v1 rest] g1 show ?case by simp
qed

lemma push_back_returns_iff:
  assumes inv: "string_db_inv db"
  shows "(\<exists>idx db'. push_back realloc db str = Inr (idx, db')) \<longleftrightarrow>
     (\<exists>idx. valid_idx db idx \<and> get db idx = c_str str)
   \<or> ((strlen str + 1 + m_size db > m_capacity db \<longrightarrow>
          realloc (grown_capacity db str) = Realloc_same)
      \<and> \<not> list_ex (\<lambda>e. entry_hash e = calculate_hash str) (m_dict db))"
proof (cases "find (\<lambda>e. entry_content (m_data db) e = c_str str) (m_dict db)")
  case (Some e)
  from push_back_found [OF inv Some, of realloc] show ?thesis by blast
next
  case None
  have "\<not> (\<exists>idx. valid_idx db idx \<and> get db idx = c_str str)"
  proof
    assume "\<exists>idx. valid_idx db idx \<and> get db idx = c_str str"
    then obtain idx where "valid_idx db idx" "get db idx = c_str str" by blast
    from find_content_present [OF inv this] None show False by simp
  qed
  then show ?thesis
    unfolding push_back_new [OF inv None]
    by (cases "realloc (grown_capacity db str)") auto
qed

subsection \<open>Where \<^verbatim>\<open>push_back\<close> does not return\<close>

text \<open>
  Claim C2 does not hold of the code. \<^verbatim>\<open>"ab"\<close> and \<^verbatim>\<open>"bA"\<close> have the same hash. On a fresh
  database \<^verbatim>\<open>push_back("ab")\<close> returns offset 0. Then \<^verbatim>\<open>push_back("bA")\<close> finds no equal
  entry and appends the string, and \<^verbatim>\<open>m_dict.emplace\<close> compares the entry it has constructed
  with the stored entry of the same hash: both are \<open>IDX_SET\<close> entries, \<^verbatim>\<open>operator==\<close>
  reaches \<^verbatim>\<open>assert(false)\<close>, and the call returns no offset at all.
\<close>

theorem push_back_hash_collision:
  "calculate_hash ''ab'' = calculate_hash ''bA''
   \<and> string_db_ctor True 2048 = Inr \<lparr>m_dict = [], m_data = [], m_capacity = 2048\<rparr>
   \<and> push_back (\<lambda>n. Realloc_same) \<lparr>m_dict = [], m_data = [], m_capacity = 2048\<rparr> ''ab'' =
       Inr (0, \<lparr>m_dict = [IDX_SET 0 5863208], m_data = ''ab'' @ [NUL], m_capacity = 2048\<rparr>)
   \<and> push_back (\<lambda>n. Realloc_same)
         \<lparr>m_dict = [IDX_SET 0 5863208], m_data = ''ab'' @ [NUL], m_capacity = 2048\<rparr> ''bA'' =
       Inl AssertionFailed"
  by (simp add: push_back_def uset_find_def uset_emplace_def m_size_def strlen_def c_str_def
      NUL_def calculate_hash_def char_as_size_t_def strcmp_eq_def string_db_ctor_def)

text \<open>
  The second way not to return: the string does not fit and \<^verbatim>\<open>realloc\<close> moves the buffer.
\<close>

lemma push_back_realloc_moved:
  "push_back (\<lambda>n. Realloc_moved) \<lparr>m_dict = [], m_data = [], m_capacity = 1\<rparr> ''dog'' =
     Inl DoubleFree"
  by (simp add: push_back_def uset_find_def m_size_def strlen_def c_str_def NUL_def
      regrow_def)

section \<open>Properties of the recorder\<close>

subsection \<open>The scan over the children\<close>

lemma scan_children_None:
  "scan_children eq cs i = None \<longleftrightarrow> (\<forall>k. i \<le> k \<and> k < length cs \<longrightarrow> \<not> eq (m_label (cs ! k)))"
proof (induction eq cs i rule: scan_children.induct)
  case (1 eq children i)
  show ?case
  proof (cases "i < length children")
    case True
    note lt = this
    show ?thesis
    proof (cases "eq (m_label (children ! i))")
      case True
      with lt show ?thesis by (subst scan_children.simps) auto
    next
      case False
      with lt 1 have "scan_children eq children i = None \<longleftrightarrow>
        (\<forall>k. Suc i \<le> k \<and> k < length children \<longrightarrow> \<not> eq (m_label (children ! k)))"
        by (subst scan_children.simps) simp
      also have "\<dots> \<longleftrightarrow> (\<forall>k. i \<le> k \<and> k < length children \<longrightarrow> \<not> eq (m_label (children ! k)))"
        using False by (metis Suc_leI le_neq_implies_less Suc_leD)
      finally show ?thesis .
    qed
  next
    case False
    then show ?thesis by (subst scan_children.simps) auto
  qed
qed

lemma scan_children_Some:
  "scan_children eq cs i = Some j \<Longrightarrow>
     i \<le> j \<and> j < length cs \<and> eq (m_label (cs ! j))
     \<and> (\<forall>k. i \<le> k \<and> k < j \<longrightarrow> \<not> eq (m_label (cs ! k)))"
proof (induction eq cs i rule: scan_children.induct)
  case (1 eq children i)
  show ?case
  proof (cases "i < length children")
    case True
    note lt = this
    show ?thesis
    proof (cases "eq (m_label (children ! i))")
      case True
      with lt 1(2) have "j = i" by (subst (asm) scan_children.simps) simp
      with True lt show ?thesis by auto
    next
      case False
      with lt 1(2) have "scan_children eq children (Suc i) = Some j"
        by (subst (asm) scan_children.simps) simp
      from 1(1) [OF lt False this] False show ?thesis
        by (metis Suc_leD Suc_leI le_neq_implies_less)
    qed
  next
    case False
    with 1(2) show ?thesis by (subst (asm) scan_children.simps) simp
  qed
qed

subsection \<open>Paths and updates\<close>

lemma node_at_append:
  "node_at t (p @ q) = (case node_at t p of None \<Rightarrow> None | Some n \<Rightarrow> node_at n q)"
  by (induction p arbitrary: t) simp_all

lemma node_at_snoc:
  "node_at t p = Some n \<Longrightarrow> i < length (m_children n) \<Longrightarrow>
   node_at t (p @ [i]) = Some (m_children n ! i)"
  by (simp add: node_at_append)

lemma node_at_butlast:
  "\<exists>n'. node_at t (butlast p) = Some n'" if "node_at t p = Some n"
proof (cases "p = []")
  case True
  then show ?thesis by simp
next
  case False
  then have "p = butlast p @ [last p]" by simp
  then have "node_at t p =
      (case node_at t (butlast p) of None \<Rightarrow> None | Some n \<Rightarrow> node_at n [last p])"
    by (metis node_at_append)
  with that show ?thesis by (cases "node_at t (butlast p)") simp_all
qed

lemma m_label_update_at:
  "(\<And>n. m_label (f n) = m_label n) \<Longrightarrow> m_label (update_at f p t) = m_label t"
  by (cases p; cases t) simp_all

lemma node_at_update_at:
  "node_at t p = Some n \<Longrightarrow> node_at (update_at f p t) p = Some (f n)"
proof (induction p arbitrary: t)
  case Nil
  then show ?case by simp
next
  case (Cons k ks)
  obtain l v cs where t: "t = Node l v cs" by (cases t)
  with Cons show ?case by (simp split: if_splits)
qed

lemma tree_all_labels_mono:
  "(\<And>l ls. P l ls \<Longrightarrow> Q l ls) \<Longrightarrow> tree_all_labels P t \<Longrightarrow> tree_all_labels Q t"
proof (induction t)
  case (Node l v cs)
  then show ?case by (auto simp: list_all_iff)
qed

lemma tree_all_labels_node_at:
  "tree_all_labels P t \<Longrightarrow> node_at t p = Some n \<Longrightarrow> tree_all_labels P n"
proof (induction p arbitrary: t)
  case Nil
  then show ?case by simp
next
  case (Cons k ks)
  obtain l v cs where t: "t = Node l v cs" by (cases t)
  with Cons.prems have k: "k < length cs" and at: "node_at (cs ! k) ks = Some n"
    by (simp_all split: if_splits)
  from Cons.prems(1) t k have "tree_all_labels P (cs ! k)"
    by (simp add: list_all_length)
  from Cons.IH [OF this at] show ?case .
qed

lemma tree_all_labels_update_at:
  assumes "\<And>n. m_label (f n) = m_label n"
  shows "tree_all_labels P t \<Longrightarrow> node_at t p = Some n \<Longrightarrow> tree_all_labels P (f n) \<Longrightarrow>
         tree_all_labels P (update_at f p t)"
proof (induction p arbitrary: t)
  case Nil
  then show ?case by simp
next
  case (Cons k ks)
  obtain l v cs where t: "t = Node l v cs" by (cases t)
  with Cons.prems have k: "k < length cs" and at: "node_at (cs ! k) ks = Some n"
    by (simp_all split: if_splits)
  from Cons.prems(1) t k have sub: "tree_all_labels P (cs ! k)"
    by (simp add: list_all_length)
  have new: "tree_all_labels P (update_at f ks (cs ! k))"
    by (rule Cons.IH [OF sub at Cons.prems(3)])
  have lab: "m_label (update_at f ks (cs ! k)) = m_label (cs ! k)"
    by (rule m_label_update_at [OF assms])
  have "map m_label (cs[k := update_at f ks (cs ! k)]) = map m_label cs"
    using k lab by (simp add: map_update list_update_same_conv)
  moreover have "list_all (tree_all_labels P) (cs[k := update_at f ks (cs ! k)])"
    using Cons.prems(1) t new k
    by (auto simp: list_all_length nth_list_update)
  ultimately show ?case using t k Cons.prems(1) by simp
qed

subsection \<open>The invariant is kept by every call\<close>

lemma label_contract_equal:
  "label_contract H I V norm \<Longrightarrow> I h \<Longrightarrow> V h i \<Longrightarrow>
   lh_equal H h i l = (lh_restore H h i = norm l)"
  by (simp add: label_contract_def)

lemma label_contract_normal:
  "label_contract H I V norm \<Longrightarrow> I h \<Longrightarrow> V h i \<Longrightarrow>
   norm (lh_restore H h i) = lh_restore H h i"
  by (simp add: label_contract_def)

lemma label_contract_save:
  assumes "label_contract H I V norm" and "I h" and "lh_save H h l = Inr (i, h')"
  shows "I h'" and "V h' i" and "lh_restore H h' i = norm l"
    and "\<And>j. V h j \<Longrightarrow> V h' j" and "\<And>j. V h j \<Longrightarrow> lh_restore H h' j = lh_restore H h j"
  using assms unfolding label_contract_def by blast+

lemma label_inv_save:
  assumes "label_contract H I V norm" and "I h" and "lh_save H h l = Inr (i, h')"
    and "label_inv H V h l0 ls"
  shows "label_inv H V h' l0 ls"
proof -
  from assms(4) have v: "V h l0" and vs: "list_all (V h) ls"
    and d: "distinct (map (lh_restore H h) ls)"
    by (simp_all add: label_inv_def)
  from vs have eq: "map (lh_restore H h') ls = map (lh_restore H h) ls"
    using label_contract_save(5) [OF assms(1-3)] by (simp add: list_all_iff)
  have d': "distinct (map (lh_restore H h') ls)"
    unfolding eq using d .
  from vs have "list_all (V h') ls"
    using label_contract_save(4) [OF assms(1-3)] by (simp add: list_all_iff)
  with d' show ?thesis
    using v label_contract_save(4) [OF assms(1-3)] by (simp add: label_inv_def)
qed

lemma begin_scope_unfold:
  assumes "node_at (m_root r) (m_current_node r) = Some cur"
  shows "begin_scope H a r label =
     (case scan_children (\<lambda>l. lh_equal H (m_label_helper r) l label) (m_children cur) 0 of
        Some i \<Rightarrow> Inr (r\<lparr>m_current_node := m_current_node r @ [i],
                        m_recorder_internal_running := False\<rparr>)
      | None \<Rightarrow>
          (if a = New_fails then Inl OutOfMemory
           else
             (case lh_save H (m_label_helper r) label of
                Inl e \<Rightarrow> Inl e
              | Inr (l, h') \<Rightarrow>
                  (if a = Emplace_back_fails then Inl OutOfMemory
                   else
                     Inr (r\<lparr>m_label_helper := h',
                            m_root := update_at (emplace_back (Node l (m_default_value r) []))
                                        (m_current_node r) (m_root r),
                            m_current_node := m_current_node r @ [length (m_children cur)],
                            m_recorder_internal_running := False\<rparr>)))))"
  using assms
  by (simp add: begin_scope_def begin_scope_body_def split: option.splits sum.splits prod.splits)

lemma begin_scope_found:
  assumes "node_at (m_root r) (m_current_node r) = Some cur"
    and "scan_children (\<lambda>l. lh_equal H (m_label_helper r) l label) (m_children cur) 0 = Some i"
  shows "begin_scope H a r label =
           Inr (r\<lparr>m_current_node := m_current_node r @ [i],
                  m_recorder_internal_running := False\<rparr>)"
  using assms by (simp add: begin_scope_unfold)

lemma begin_scope_new:
  assumes "node_at (m_root r) (m_current_node r) = Some cur"
    and "scan_children (\<lambda>l. lh_equal H (m_label_helper r) l label) (m_children cur) 0 = None"
    and "lh_save H (m_label_helper r) label = Inr (l, h')"
  shows "begin_scope H Allocated r label =
           Inr (r\<lparr>m_label_helper := h',
                  m_root := update_at (emplace_back (Node l (m_default_value r) []))
                              (m_current_node r) (m_root r),
                  m_current_node := m_current_node r @ [length (m_children cur)],
                  m_recorder_internal_running := False\<rparr>)"
  using assms by (simp add: begin_scope_unfold)

lemma begin_scope_error:
  assumes "node_at (m_root r) (m_current_node r) = Some cur"
    and "begin_scope H a r label = Inl e"
  shows "(a \<noteq> Allocated \<and> e = OutOfMemory) \<or> lh_save H (m_label_helper r) label = Inl e"
  using assms
  by (auto simp: begin_scope_unfold split: option.splits sum.splits prod.splits if_splits)

lemma begin_scope_returns_new:
  assumes "node_at (m_root r) (m_current_node r) = Some cur"
    and "scan_children (\<lambda>l. lh_equal H (m_label_helper r) l label) (m_children cur) 0 = None"
    and "begin_scope H a r label = Inr r'"
  shows "a = Allocated \<and> (\<exists>l h'. lh_save H (m_label_helper r) label = Inr (l, h'))"
  using assms
  by (cases a) (auto simp: begin_scope_unfold split: sum.splits if_splits)

lemma m_label_emplace_back [simp]: "m_label (emplace_back c n) = m_label n"
  by (simp add: emplace_back_def)

lemma m_label_set_value [simp]: "m_label (set_value f n) = m_label n"
  by (simp add: set_value_def)

lemma begin_scope_inv:
  assumes c: "label_contract H I V norm" and inv: "recorder_inv H I V r"
    and b: "begin_scope H a r label = Inr r'"
  shows "recorder_inv H I V r'"
proof -
  let ?h = "m_label_helper r"
  from inv obtain cur where cur: "node_at (m_root r) (m_current_node r) = Some cur"
    by (auto simp: recorder_inv_def)
  from inv have I: "I ?h" and t: "tree_all_labels (label_inv H V ?h) (m_root r)"
    by (simp_all add: recorder_inv_def)
  from tree_all_labels_node_at [OF t cur] have tcur: "tree_all_labels (label_inv H V ?h) cur" .
  obtain lc vc cs where curn: "cur = Node lc vc cs" by (cases cur)
  from tcur curn have li: "label_inv H V ?h lc (map m_label cs)"
    and tcs: "list_all (tree_all_labels (label_inv H V ?h)) cs"
    by simp_all
  show ?thesis
  proof (cases "scan_children (\<lambda>l. lh_equal H ?h l label) (m_children cur) 0")
    case (Some i)
    from scan_children_Some [OF Some] have "i < length (m_children cur)" by simp
    from node_at_snoc [OF cur this] have "node_at (m_root r) (m_current_node r @ [i]) \<noteq> None"
      by simp
    moreover from b have "r' = r\<lparr>m_current_node := m_current_node r @ [i],
                                 m_recorder_internal_running := False\<rparr>"
      by (simp add: begin_scope_found [OF cur Some])
    ultimately show ?thesis using inv by (simp add: recorder_inv_def)
  next
    case None
    from begin_scope_returns_new [OF cur None b] obtain l h' where
      s: "lh_save H ?h label = Inr (l, h')" and a: "a = Allocated"
      by blast
    let ?c = "Node l (m_default_value r) []"
    let ?root = "update_at (emplace_back ?c) (m_current_node r) (m_root r)"
    from b a have r': "r' = r\<lparr>m_label_helper := h', m_root := ?root,
                   m_current_node := m_current_node r @ [length (m_children cur)],
                   m_recorder_internal_running := False\<rparr>"
      by (simp add: begin_scope_new [OF cur None s])
    note sv = label_contract_save [OF c I s]
    have t': "tree_all_labels (label_inv H V h') (m_root r)"
      by (rule tree_all_labels_mono [OF label_inv_save [OF c I s] t])
    from tree_all_labels_node_at [OF t' cur] curn
    have li': "label_inv H V h' lc (map m_label cs)"
      and tcs': "list_all (tree_all_labels (label_inv H V h')) cs"
      by simp_all
    have notin: "norm label \<notin> set (map (lh_restore H h') (map m_label cs))"
    proof
      assume "norm label \<in> set (map (lh_restore H h') (map m_label cs))"
      then obtain k where k: "k < length cs"
        and e: "lh_restore H h' (m_label (cs ! k)) = norm label"
        by (auto simp: in_set_conv_nth)
      from li k have vk: "V ?h (m_label (cs ! k))"
        by (simp add: label_inv_def list_all_length)
      from sv(5) [OF vk] e have "lh_restore H ?h (m_label (cs ! k)) = norm label" by simp
      with label_contract_equal [OF c I vk] have "lh_equal H ?h (m_label (cs ! k)) label"
        by simp
      moreover from None curn k have "\<not> lh_equal H ?h (m_label (cs ! k)) label"
        by (simp add: scan_children_None)
      ultimately show False by simp
    qed
    have "label_inv H V h' lc (map m_label (cs @ [?c]))"
      using li' sv(2,3) notin by (simp add: label_inv_def)
    moreover have "tree_all_labels (label_inv H V h') ?c"
      using sv(2) by (simp add: label_inv_def)
    ultimately have "tree_all_labels (label_inv H V h') (emplace_back ?c cur)"
      using tcs' curn by (simp add: emplace_back_def)
    then have troot: "tree_all_labels (label_inv H V h') ?root"
      by (intro tree_all_labels_update_at [OF _ t' cur]) simp_all
    have "node_at ?root (m_current_node r) = Some (emplace_back ?c cur)"
      by (rule node_at_update_at [OF cur])
    then have "node_at ?root (m_current_node r @ [length (m_children cur)]) = Some ?c"
      by (simp add: node_at_append emplace_back_def)
    with troot sv(1) r' show ?thesis by (simp add: recorder_inv_def)
  qed
qed

lemma end_scope_unfold:
  "end_scope r =
     (if m_current_node r = [] then Inl StackUnderflow
      else Inr (r\<lparr>m_current_node := butlast (m_current_node r),
                  m_recorder_internal_running := False\<rparr>))"
  by (simp add: end_scope_def)

lemma end_scope_inv:
  assumes "recorder_inv H I V r" and "end_scope r = Inr r'"
  shows "recorder_inv H I V r'"
proof -
  from assms(1) obtain cur where "node_at (m_root r) (m_current_node r) = Some cur"
    by (auto simp: recorder_inv_def)
  from node_at_butlast [OF this] assms show ?thesis
    by (auto simp: end_scope_unfold recorder_inv_def split: if_splits)
qed

lemma end_scope_label_unfold:
  assumes "node_at (m_root r) (m_current_node r) = Some cur"
  shows "end_scope_label H r label =
     (if m_current_node r = [] then Inl StackUnderflow
      else if \<not> lh_equal H (m_label_helper r) (m_label cur) label then Inl LabelMismatch
      else Inr (r\<lparr>m_current_node := butlast (m_current_node r),
                  m_recorder_internal_running := False\<rparr>))"
  using assms by (simp add: end_scope_label_def)

lemma end_scope_label_inv:
  assumes "recorder_inv H I V r" and "end_scope_label H r label = Inr r'"
  shows "recorder_inv H I V r'"
proof -
  from assms(1) obtain cur where cur: "node_at (m_root r) (m_current_node r) = Some cur"
    by (auto simp: recorder_inv_def)
  from node_at_butlast [OF cur] assms show ?thesis
    by (auto simp: end_scope_label_unfold [OF cur] recorder_inv_def split: if_splits)
qed

lemma tree_all_labels_set_value:
  "tree_all_labels P (set_value f n) = tree_all_labels P n"
  by (cases n) (simp add: set_value_def)

lemma cnt_update_inv:
  assumes "recorder_inv H I V r"
  shows "recorder_inv H I V (cnt_update f r)"
proof -
  from assms obtain cur where cur: "node_at (m_root r) (m_current_node r) = Some cur"
    by (auto simp: recorder_inv_def)
  from assms have t: "tree_all_labels (label_inv H V (m_label_helper r)) (m_root r)"
    by (simp add: recorder_inv_def)
  have "tree_all_labels (label_inv H V (m_label_helper r))
          (update_at (set_value f) (m_current_node r) (m_root r))"
    by (rule tree_all_labels_update_at [OF _ t cur])
      (simp_all add: tree_all_labels_set_value tree_all_labels_node_at [OF t cur])
  with assms node_at_update_at [OF cur, of "set_value f"] show ?thesis
    by (simp add: recorder_inv_def cnt_update_def)
qed

lemma recorder_ctor_inv:
  assumes "label_contract H I V norm" and "I h0"
    and "recorder_ctor H new_ok h0 dv root_label rv = Inr r"
  shows "recorder_inv H I V r"
proof -
  from assms(3) obtain l h' where s: "lh_save H h0 root_label = Inr (l, h')"
    and r: "r = \<lparr>m_recorder_internal_running = False, m_label_helper = h',
               m_default_value = dv, m_root = Node l rv [], m_current_node = []\<rparr>"
    by (auto simp: recorder_ctor_def split: sum.splits if_splits)
  from label_contract_save(1,2) [OF assms(1,2) s] r show ?thesis
    by (simp add: recorder_inv_def label_inv_def)
qed

lemma step_inv:
  assumes "label_contract H I V norm" and "recorder_inv H I V r" and "step H r x = Inr r'"
  shows "recorder_inv H I V r'"
proof (cases x)
  case (Begin a l)
  with assms show ?thesis by (simp add: begin_scope_inv)
next
  case End
  with assms show ?thesis by (simp add: end_scope_inv)
next
  case (EndL l)
  with assms show ?thesis by (simp add: end_scope_label_inv)
next
  case (Cnt f)
  with assms show ?thesis by (auto simp: cnt_update_inv)
qed

lemma run_inv:
  "label_contract H I V norm \<Longrightarrow> recorder_inv H I V r \<Longrightarrow> run H r ops = Inr r' \<Longrightarrow>
   recorder_inv H I V r'"
proof (induction ops arbitrary: r)
  case Nil
  then show ?case by simp
next
  case (Cons x xs)
  then show ?case
    by (cases "step H r x") (auto dest: step_inv)
qed

subsection \<open>Children with different labels\<close>

lemma no_equal_labels_distinct:
  assumes "label_contract H I V norm" and "I h" and "list_all (V h) ls"
    and "distinct (map (lh_restore H h) ls)"
  shows "no_equal_labels (labels_compare_equal H h) ls"
  using assms(3,4)
proof (induction ls)
  case Nil
  then show ?case by simp
next
  case (Cons l ls)
  have "\<not> labels_compare_equal H h l l' \<and> \<not> labels_compare_equal H h l' l"
    if "l' \<in> set ls" for l'
  proof -
    from Cons.prems that have v: "V h l" and v': "V h l'"
      and ne: "lh_restore H h l \<noteq> lh_restore H h l'"
      by (auto simp: list_all_iff)
    from label_contract_equal [OF assms(1,2) v, of "lh_restore H h l'"]
      label_contract_equal [OF assms(1,2) v', of "lh_restore H h l"]
      label_contract_normal [OF assms(1,2) v] label_contract_normal [OF assms(1,2) v'] ne
    show ?thesis by (auto simp: labels_compare_equal_def)
  qed
  with Cons show ?case by (simp add: list_all_iff)
qed

lemma scan_children_first:
  assumes "i < length cs" and "eq (m_label (cs ! i))"
    and "\<forall>k<i. \<not> eq (m_label (cs ! k))"
  shows "scan_children eq cs 0 = Some i"
proof (cases "scan_children eq cs 0")
  case None
  with assms(1,2) show ?thesis by (simp add: scan_children_None)
next
  case (Some j)
  from scan_children_Some [OF Some] have j: "j < length cs" "eq (m_label (cs ! j))"
    "\<forall>k<j. \<not> eq (m_label (cs ! k))" by simp_all
  from j(3) assms(2) have "\<not> i < j" by auto
  moreover from assms(3) j(2) have "\<not> j < i" by auto
  ultimately have "j = i" by simp
  with Some show ?thesis by simp
qed

subsection \<open>What a call leaves alone\<close>

lemma keeps_children_emplace_back: "keeps_children (emplace_back c)"
  by (simp add: keeps_children_def emplace_back_def nth_append)

lemma keeps_children_set_value: "keeps_children (set_value f)"
  by (simp add: keeps_children_def set_value_def)

lemma keeps_childrenD:
  assumes "keeps_children f"
  shows "m_label (f n) = m_label n"
    and "k < length (m_children n) \<Longrightarrow> k < length (m_children (f n))"
    and "k < length (m_children n) \<Longrightarrow> m_children (f n) ! k = m_children n ! k"
  using assms unfolding keeps_children_def by (auto intro: less_le_trans)

lemma node_at_update_keeps:
  assumes f: "keeps_children f"
  shows "node_at t p = Some n \<Longrightarrow>
         \<exists>n'. node_at (update_at f q t) p = Some n' \<and> m_label n' = m_label n
             \<and> ((\<forall>x. m_value (f x) = m_value x) \<longrightarrow> m_value n' = m_value n)"
proof (induction q arbitrary: t p)
  case Nil
  show ?case
  proof (cases p)
    case Nil
    with Nil.prems show ?thesis by (simp add: keeps_childrenD [OF f])
  next
    case (Cons k ks)
    with Nil.prems show ?thesis
      by (auto simp: keeps_childrenD [OF f] split: if_splits)
  qed
next
  case (Cons j js)
  obtain l v cs where t: "t = Node l v cs" by (cases t)
  show ?case
  proof (cases "j < length cs")
    case False
    with t Cons.prems show ?thesis by simp
  next
    case True
    note j = this
    show ?thesis
    proof (cases p)
      case Nil
      with Cons.prems t j show ?thesis by auto
    next
      case (Cons k ks)
      with Cons.prems t have k: "k < length cs" and at: "node_at (cs ! k) ks = Some n"
        by (simp_all split: if_splits)
      show ?thesis
      proof (cases "k = j")
        case True
        from Cons.IH [OF at] True t j k Cons show ?thesis by simp
      next
        case False
        with t j k at Cons show ?thesis by simp
      qed
    qed
  qed
qed

lemma labels_on_path_update_keeps:
  assumes f: "keeps_children f"
  shows "node_at t p = Some n \<Longrightarrow> labels_on_path (update_at f q t) p = labels_on_path t p"
proof (induction q arbitrary: t p)
  case Nil
  show ?case
  proof (cases p)
    case Nil
    then show ?thesis by (simp add: keeps_childrenD [OF f])
  next
    case (Cons k ks)
    with Nil.prems show ?thesis
      by (auto simp: keeps_childrenD [OF f] split: if_splits)
  qed
next
  case (Cons j js)
  obtain l v cs where t: "t = Node l v cs" by (cases t)
  show ?case
  proof (cases "j < length cs")
    case False
    with t show ?thesis by simp
  next
    case True
    note j = this
    show ?thesis
    proof (cases p)
      case Nil
      with t j show ?thesis by simp
    next
      case (Cons k ks)
      with Cons.prems t have k: "k < length cs" and at: "node_at (cs ! k) ks = Some n"
        by (simp_all split: if_splits)
      show ?thesis
      proof (cases "k = j")
        case True
        from Cons.IH [OF at] True t j k Cons show ?thesis by simp
      next
        case False
        with t j k at Cons show ?thesis by simp
      qed
    qed
  qed
qed

lemma labels_on_path_snoc:
  "node_at t p = Some n \<Longrightarrow> i < length (m_children n) \<Longrightarrow>
   labels_on_path t (p @ [i]) = labels_on_path t p @ [m_label (m_children n ! i)]"
proof (induction p arbitrary: t)
  case Nil
  then show ?case by simp
next
  case (Cons k ks)
  then show ?case by (simp split: if_splits)
qed

lemma labels_on_path_last:
  "node_at t p = Some n \<Longrightarrow>
   length (labels_on_path t p) = Suc (length p) \<and> last (labels_on_path t p) = m_label n"
proof (induction p arbitrary: t)
  case Nil
  then show ?case by simp
next
  case (Cons k ks)
  from Cons.prems have k: "k < length (m_children t)"
    and at: "node_at (m_children t ! k) ks = Some n"
    by (simp_all split: if_splits)
  from Cons.IH [OF at] have
    len: "length (labels_on_path (m_children t ! k) ks) = Suc (length ks)"
    and la: "last (labels_on_path (m_children t ! k) ks) = m_label n"
    by simp_all
  from len have "labels_on_path (m_children t ! k) ks \<noteq> []" by auto
  with len la k show ?case by simp
qed

lemma labels_on_path_butlast:
  assumes "node_at t p = Some n" and "p \<noteq> []"
  shows "labels_on_path t (butlast p) = butlast (labels_on_path t p)"
proof -
  from assms(2) have p: "p = butlast p @ [last p]" by simp
  from node_at_butlast [OF assms(1)] obtain n0 where n0: "node_at t (butlast p) = Some n0"
    by blast
  have "node_at t (butlast p @ [last p]) = Some n" using assms(1) p by simp
  with n0 have "last p < length (m_children n0)"
    by (simp add: node_at_append split: if_splits)
  from labels_on_path_snoc [OF n0 this] p show ?thesis
    by (metis butlast_snoc)
qed

lemma labels_on_path_valid:
  "tree_all_labels (label_inv H V h) t \<Longrightarrow> node_at t p = Some n \<Longrightarrow>
   list_all (V h) (labels_on_path t p)"
proof (induction p arbitrary: t)
  case Nil
  then show ?case by (cases t) (auto simp: label_inv_def)
next
  case (Cons k ks)
  obtain l v cs where t: "t = Node l v cs" by (cases t)
  with Cons.prems have k: "k < length cs" and at: "node_at (cs ! k) ks = Some n"
    by (simp_all split: if_splits)
  from Cons.prems(1) t k have "tree_all_labels (label_inv H V h) (cs ! k)"
    by (simp add: list_all_length)
  from Cons.IH [OF this at] Cons.prems(1) t k show ?case
    by (simp add: label_inv_def)
qed

lemma count_nodes_update_emplace_back:
  "node_at t q = Some n \<Longrightarrow>
   count_nodes (update_at (emplace_back (Node l d [])) q t) = Suc (count_nodes t)"
proof (induction q arbitrary: t)
  case Nil
  then show ?case by (cases t) (auto simp: emplace_back_def)
next
  case (Cons j js)
  obtain l' v cs where t: "t = Node l' v cs" by (cases t)
  with Cons.prems have j: "j < length cs" and at: "node_at (cs ! j) js = Some n"
    by (simp_all split: if_splits)
  let ?c = "update_at (emplace_back (Node l d [])) js (cs ! j)"
  from Cons.IH [OF at] have c: "count_nodes ?c = Suc (count_nodes (cs ! j))" .
  have "cs[j := ?c] = take j cs @ ?c # drop (Suc j) cs"
    using j by (simp add: upd_conv_take_nth_drop)
  moreover have "cs = take j cs @ cs ! j # drop (Suc j) cs"
    using j by (simp add: id_take_nth_drop [symmetric])
  ultimately have
    "sum_list (map count_nodes (cs[j := ?c])) =
       sum_list (map count_nodes (take j cs @ ?c # drop (Suc j) cs))"
    "sum_list (map count_nodes cs) =
       sum_list (map count_nodes (take j cs @ cs ! j # drop (Suc j) cs))"
    by simp_all
  with c have
    "sum_list (map count_nodes (cs[j := ?c])) = Suc (sum_list (map count_nodes cs))"
    by simp
  with t j show ?case by simp
qed

subsection \<open>Open scopes and the current path\<close>

lemma begin_scope_match:
  assumes c: "label_contract H I V norm" and inv: "recorder_inv H I V r"
    and m: "open_scopes_match H norm r st"
    and b: "begin_scope H a r label = Inr r'"
  shows "open_scopes_match H norm r' (label # st)
       \<and> (\<exists>i. m_current_node r' = m_current_node r @ [i])"
proof -
  let ?h = "m_label_helper r"
  let ?lp = "labels_on_path (m_root r) (m_current_node r)"
  from inv obtain cur where cur: "node_at (m_root r) (m_current_node r) = Some cur"
    by (auto simp: recorder_inv_def)
  from inv have I: "I ?h" and t: "tree_all_labels (label_inv H V ?h) (m_root r)"
    by (simp_all add: recorder_inv_def)
  from m have len: "length st \<le> length (m_current_node r)"
    and lab: "map (lh_restore H ?h) (take (length st) (rev ?lp)) = map norm st"
    by (simp_all add: open_scopes_match_def)
  show ?thesis
  proof (cases "scan_children (\<lambda>l. lh_equal H ?h l label) (m_children cur) 0")
    case (Some i)
    from scan_children_Some [OF Some] have i: "i < length (m_children cur)"
      and e: "lh_equal H ?h (m_label (m_children cur ! i)) label" by simp_all
    from b have r': "r' = r\<lparr>m_current_node := m_current_node r @ [i],
                             m_recorder_internal_running := False\<rparr>"
      by (simp add: begin_scope_found [OF cur Some])
    from tree_all_labels_node_at [OF t node_at_snoc [OF cur i]]
    have "V ?h (m_label (m_children cur ! i))"
      by (cases "m_children cur ! i") (simp add: label_inv_def)
    from label_contract_equal [OF c I this] e
    have "lh_restore H ?h (m_label (m_children cur ! i)) = norm label" by simp
    with labels_on_path_snoc [OF cur i] lab len r' show ?thesis
      by (simp add: open_scopes_match_def)
  next
    case None
    from begin_scope_returns_new [OF cur None b] obtain l h' where
      s: "lh_save H ?h label = Inr (l, h')" and a: "a = Allocated"
      by blast
    let ?c = "Node l (m_default_value r) []"
    let ?root = "update_at (emplace_back ?c) (m_current_node r) (m_root r)"
    let ?i = "length (m_children cur)"
    from b a have r': "r' = r\<lparr>m_label_helper := h', m_root := ?root,
                   m_current_node := m_current_node r @ [?i],
                   m_recorder_internal_running := False\<rparr>"
      by (simp add: begin_scope_new [OF cur None s])
    note sv = label_contract_save [OF c I s]
    have at: "node_at ?root (m_current_node r) = Some (emplace_back ?c cur)"
      by (rule node_at_update_at [OF cur])
    have "labels_on_path ?root (m_current_node r @ [?i]) =
            labels_on_path ?root (m_current_node r) @ [l]"
      using labels_on_path_snoc [OF at, of ?i] by (simp add: emplace_back_def)
    also have "labels_on_path ?root (m_current_node r) = ?lp"
      by (rule labels_on_path_update_keeps [OF keeps_children_emplace_back cur])
    finally have lp': "labels_on_path ?root (m_current_node r @ [?i]) = ?lp @ [l]" .
    from labels_on_path_valid [OF t cur] have "list_all (V ?h) (take (length st) (rev ?lp))"
      by (auto simp: list_all_iff dest: in_set_takeD)
    then have "map (lh_restore H h') (take (length st) (rev ?lp)) =
               map (lh_restore H ?h) (take (length st) (rev ?lp))"
      using sv(5) by (simp add: list_all_iff)
    with lab have "map (lh_restore H h') (take (length st) (rev ?lp)) = map norm st"
      by (simp only:)
    with lp' sv(3) len r' show ?thesis
      by (simp add: open_scopes_match_def)
  qed
qed

lemma end_scope_match:
  assumes inv: "recorder_inv H I V r"
    and m: "open_scopes_match H norm r (l # st)"
  shows "open_scopes_match H norm
           (r\<lparr>m_current_node := butlast (m_current_node r),
              m_recorder_internal_running := False\<rparr>) st
       \<and> m_current_node r \<noteq> []"
proof -
  let ?lp = "labels_on_path (m_root r) (m_current_node r)"
  from inv obtain cur where cur: "node_at (m_root r) (m_current_node r) = Some cur"
    by (auto simp: recorder_inv_def)
  from m have len: "Suc (length st) \<le> length (m_current_node r)"
    and lab: "map (lh_restore H (m_label_helper r)) (take (Suc (length st)) (rev ?lp)) =
                map norm (l # st)"
    by (simp_all add: open_scopes_match_def)
  from len have ne: "m_current_node r \<noteq> []" by auto
  from labels_on_path_last [OF cur] have "?lp \<noteq> []" by auto
  then have "rev (butlast ?lp) = tl (rev ?lp)"
    by (metis butlast_rev rev_rev_ident)
  then have "take (length st) (rev (butlast ?lp)) = tl (take (Suc (length st)) (rev ?lp))"
    by (simp add: tl_take)
  then have "map (lh_restore H (m_label_helper r)) (take (length st) (rev (butlast ?lp))) =
             tl (map (lh_restore H (m_label_helper r)) (take (Suc (length st)) (rev ?lp)))"
    by (simp add: map_tl)
  with lab have "map (lh_restore H (m_label_helper r)) (take (length st) (rev (butlast ?lp))) =
             map norm st"
    by simp
  with labels_on_path_butlast [OF cur ne] len ne show ?thesis
    by (simp add: open_scopes_match_def)
qed

lemma open_scopes_match_top:
  assumes c: "label_contract H I V norm" and inv: "recorder_inv H I V r"
    and m: "open_scopes_match H norm r (l # st)"
    and cur: "node_at (m_root r) (m_current_node r) = Some cur"
  shows "lh_equal H (m_label_helper r) (m_label cur) l"
proof -
  let ?lp = "labels_on_path (m_root r) (m_current_node r)"
  from inv have I: "I (m_label_helper r)"
    and t: "tree_all_labels (label_inv H V (m_label_helper r)) (m_root r)"
    by (simp_all add: recorder_inv_def)
  from labels_on_path_last [OF cur] have ne: "?lp \<noteq> []" and la: "last ?lp = m_label cur"
    by auto
  from ne la have "hd (rev ?lp) = m_label cur" by (simp add: hd_rev)
  with ne have
    "take (Suc (length st)) (rev ?lp) = m_label cur # take (length st) (tl (rev ?lp))"
    by (cases "rev ?lp") simp_all
  with m have "lh_restore H (m_label_helper r) (m_label cur) = norm l"
    by (simp add: open_scopes_match_def)
  moreover from tree_all_labels_node_at [OF t cur] have "V (m_label_helper r) (m_label cur)"
    by (cases cur) (simp add: label_inv_def)
  ultimately show ?thesis
    using label_contract_equal [OF c I] by simp
qed

lemma cnt_update_match:
  assumes inv: "recorder_inv H I V r" and m: "open_scopes_match H norm r st"
  shows "open_scopes_match H norm (cnt_update f r) st"
proof -
  from inv obtain cur where cur: "node_at (m_root r) (m_current_node r) = Some cur"
    by (auto simp: recorder_inv_def)
  from labels_on_path_update_keeps [OF keeps_children_set_value cur, of f "m_current_node r"] m
  show ?thesis
    by (simp add: open_scopes_match_def cnt_update_def)
qed

lemma run_step_result:
  assumes "(\<exists>r'. run H r1 xs = Inr r' \<and> m_current_node r' = p)
     \<or> (\<exists>e a l h. run H r1 xs = Inl e \<and> Begin a l \<in> set xs
           \<and> ((a \<noteq> Allocated \<and> e = OutOfMemory) \<or> lh_save H h l = Inl e))"
    and "step H r x = Inr r1"
  shows "(\<exists>r'. run H r (x # xs) = Inr r' \<and> m_current_node r' = p)
     \<or> (\<exists>e a l h. run H r (x # xs) = Inl e \<and> Begin a l \<in> set (x # xs)
           \<and> ((a \<noteq> Allocated \<and> e = OutOfMemory) \<or> lh_save H h l = Inl e))"
proof -
  have eq: "run H r (x # xs) = run H r1 xs"
    using assms(2) by simp
  from assms(1) show ?thesis
  proof
    assume "\<exists>r'. run H r1 xs = Inr r' \<and> m_current_node r' = p"
    then show ?thesis unfolding eq by blast
  next
    assume "\<exists>e a l h. run H r1 xs = Inl e \<and> Begin a l \<in> set xs
           \<and> ((a \<noteq> Allocated \<and> e = OutOfMemory) \<or> lh_save H h l = Inl e)"
    then obtain e a l h where f: "run H r1 xs = Inl e" and b: "Begin a l \<in> set xs"
      and w: "(a \<noteq> Allocated \<and> e = OutOfMemory) \<or> lh_save H h l = Inl e"
      by blast
    from b have "Begin a l \<in> set (x # xs)" by simp
    with f w show ?thesis unfolding eq by blast
  qed
qed

lemma run_well_nested:
  assumes c: "label_contract H I V norm"
  shows "recorder_inv H I V r \<Longrightarrow> open_scopes_match H norm r st \<Longrightarrow> well_nested st ops \<Longrightarrow>
     (\<exists>r'. run H r ops = Inr r'
          \<and> m_current_node r' =
              take (length (m_current_node r) - length st) (m_current_node r))
     \<or> (\<exists>e a l h. run H r ops = Inl e \<and> Begin a l \<in> set ops
           \<and> ((a \<noteq> Allocated \<and> e = OutOfMemory) \<or> lh_save H h l = Inl e))"
proof (induction ops arbitrary: r st)
  case Nil
  then show ?case by simp
next
  case (Cons x xs)
  note inv = Cons.prems(1) and m = Cons.prems(2) and wn = Cons.prems(3)
  from inv obtain cur where cur: "node_at (m_root r) (m_current_node r) = Some cur"
    by (auto simp: recorder_inv_def)
  show ?case
  proof (cases x)
    case (Begin a l)
    with wn have wn': "well_nested (l # st) xs" by simp
    show ?thesis
    proof (cases "begin_scope H a r l")
      case (Inl e)
      from begin_scope_error [OF cur Inl] have
        "(a \<noteq> Allocated \<and> e = OutOfMemory) \<or> (\<exists>h. lh_save H h l = Inl e)"
        by blast
      moreover from Begin have "Begin a l \<in> set (x # xs)" by simp
      moreover from Inl Begin have "run H r (x # xs) = Inl e" by simp
      ultimately show ?thesis by blast
    next
      case (Inr r1)
      from begin_scope_match [OF c inv m Inr] obtain i where
        m1: "open_scopes_match H norm r1 (l # st)"
        and c1: "m_current_node r1 = m_current_node r @ [i]"
        by blast
      from m have "length st \<le> length (m_current_node r)"
        by (simp add: open_scopes_match_def)
      then have tk: "take (length (m_current_node r1) - length (l # st)) (m_current_node r1) =
                 take (length (m_current_node r) - length st) (m_current_node r)"
        using c1 by simp
      from Inr Begin have s: "step H r x = Inr r1" by simp
      from run_step_result
             [OF Cons.IH [OF begin_scope_inv [OF c inv Inr] m1 wn', unfolded tk] s]
      show ?thesis .
    qed
  next
    case End
    with wn obtain l st' where st: "st = l # st'" and wn': "well_nested st' xs"
      by (cases st) simp_all
    let ?r1 = "r\<lparr>m_current_node := butlast (m_current_node r),
                  m_recorder_internal_running := False\<rparr>"
    from end_scope_match [OF inv m [unfolded st]] have
      m1: "open_scopes_match H norm ?r1 st'" and ne: "m_current_node r \<noteq> []"
      by simp_all
    from ne have e: "end_scope r = Inr ?r1" by (simp add: end_scope_unfold)
    from m st have "length (m_current_node r) - length st < length (m_current_node r)"
      using ne by (simp add: open_scopes_match_def)
    then have tk: "take (length (m_current_node ?r1) - length st') (m_current_node ?r1) =
               take (length (m_current_node r) - length st) (m_current_node r)"
      using st by (simp add: take_butlast)
    from e End have s: "step H r x = Inr ?r1" by simp
    from run_step_result [OF Cons.IH [OF end_scope_inv [OF inv e] m1 wn', unfolded tk] s]
    show ?thesis .
  next
    case (EndL l)
    with wn obtain st' where st: "st = l # st'" and wn': "well_nested st' xs"
      by (cases st) auto
    let ?r1 = "r\<lparr>m_current_node := butlast (m_current_node r),
                  m_recorder_internal_running := False\<rparr>"
    from end_scope_match [OF inv m [unfolded st]] have
      m1: "open_scopes_match H norm ?r1 st'" and ne: "m_current_node r \<noteq> []"
      by simp_all
    from open_scopes_match_top [OF c inv m [unfolded st] cur] ne
    have e: "end_scope_label H r l = Inr ?r1"
      by (simp add: end_scope_label_unfold [OF cur])
    from m st have "length (m_current_node r) - length st < length (m_current_node r)"
      using ne by (simp add: open_scopes_match_def)
    then have tk: "take (length (m_current_node ?r1) - length st') (m_current_node ?r1) =
               take (length (m_current_node r) - length st) (m_current_node r)"
      using st by (simp add: take_butlast)
    from e EndL have s: "step H r x = Inr ?r1" by simp
    from run_step_result [OF Cons.IH [OF end_scope_label_inv [OF inv e] m1 wn', unfolded tk] s]
    show ?thesis .
  next
    case (Cnt f)
    with wn have wn': "well_nested st xs" by simp
    have tk: "m_current_node (cnt_update f r) = m_current_node r"
      by (simp add: cnt_update_def)
    from Cnt have s: "step H r x = Inr (cnt_update f r)" by simp
    from run_step_result
           [OF Cons.IH [OF cnt_update_inv [OF inv, where f = f]
                           cnt_update_match [OF inv m, where f = f] wn', unfolded tk] s]
    show ?thesis .
  qed
qed

subsection \<open>The primary label helper\<close>

lemma label_contract_primary:
  "label_contract label_helper_primary (\<lambda>h. True) (\<lambda>h l. True) (\<lambda>l. l)"
  by (simp add: label_contract_def label_helper_primary_def)

subsection \<open>Scope balance\<close>

text \<open>
  Take a recorder in a state reached from its constructor by any calls, and a
  well-nested sequence of \<^verbatim>\<open>begin_scope\<close>/\<^verbatim>\<open>end_scope\<close> calls (with writes through \<^verbatim>\<open>cnt()\<close>
  in between). Either the sequence runs to its end and leaves \<^verbatim>\<open>m_current_node\<close> where it
  was (at the root, when it started there), or it stops at a \<^verbatim>\<open>begin_scope\<close> that fails:
  one that is refused memory, or one whose label cannot be saved. No \<^verbatim>\<open>end_scope\<close> of
  the sequence fails. At the root both overloads of \<^verbatim>\<open>end_scope\<close> fail with
  \<open>StackUnderflow\<close>.
\<close>

lemma scope_balance:
  assumes "label_contract H I V norm" and "I h0"
    and "recorder_ctor H new_ok h0 dv root_label rv = Inr r0"
    and "run H r0 pre = Inr r"
    and "well_nested [] ops"
  shows "((\<exists>r'. run H r ops = Inr r' \<and> m_current_node r' = m_current_node r)
          \<or> (\<exists>e a l h. run H r ops = Inl e \<and> Begin a l \<in> set ops
                \<and> ((a \<noteq> Allocated \<and> e = OutOfMemory) \<or> lh_save H h l = Inl e)))
       \<and> (m_current_node r = [] \<longrightarrow>
            end_scope r = Inl StackUnderflow \<and> end_scope_label H r label = Inl StackUnderflow)"
proof -
  have inv: "recorder_inv H I V r"
    by (rule run_inv [OF assms(1) recorder_ctor_inv [OF assms(1-3)] assms(4)])
  have "open_scopes_match H norm r []"
    by (simp add: open_scopes_match_def)
  from run_well_nested [OF assms(1) inv this assms(5)]
  show ?thesis
    by (simp add: end_scope_def end_scope_label_def)
qed

text \<open>
  So with a helper whose \<^verbatim>\<open>save\<close> never fails, as that of the primary template, and
  with the memory every \<^verbatim>\<open>begin_scope\<close> asks for, a well-nested sequence always runs to
  its end and returns to where it started.
\<close>

lemma scope_balance_returns:
  assumes "label_contract H I V norm" and "I h0"
    and "recorder_ctor H new_ok h0 dv root_label rv = Inr r0"
    and "run H r0 pre = Inr r"
    and "well_nested [] ops"
    and "allocations_succeed ops"
    and "\<And>h l e. lh_save H h l \<noteq> Inl e"
  shows "\<exists>r'. run H r ops = Inr r' \<and> m_current_node r' = m_current_node r"
proof -
  have "a = Allocated" if "Begin a l \<in> set ops" for a l
    using assms(6) that unfolding allocations_succeed_def list_all_iff by force
  with scope_balance [OF assms(1-5)] assms(7) show ?thesis
    by blast
qed

lemma scope_balance_primary:
  assumes "recorder_ctor label_helper_primary new_ok () dv root_label rv = Inr r0"
    and "run label_helper_primary r0 pre = Inr r"
    and "well_nested [] ops"
    and "allocations_succeed ops"
  shows "\<exists>r'. run label_helper_primary r ops = Inr r' \<and> m_current_node r' = m_current_node r"
  by (rule scope_balance_returns [OF label_contract_primary _ assms])
    (simp_all add: label_helper_primary_def)

lemma scope_balance_primary_example:
  "recorder_ctor label_helper_primary True () (0::nat) ''root'' 5 =
     Inr \<lparr>m_recorder_internal_running = False, m_label_helper = (), m_default_value = 0,
          m_root = Node ''root'' 5 [], m_current_node = []\<rparr>
   \<and> well_nested []
       [Begin Allocated ''f'', Begin Allocated ''g'', EndL ''g'', Begin Allocated ''g'', End, End]
   \<and> run label_helper_primary
        \<lparr>m_recorder_internal_running = False, m_label_helper = (), m_default_value = 0::nat,
         m_root = Node ''root'' 5 [], m_current_node = []\<rparr>
        [Begin Allocated ''f'', Begin Allocated ''g'', EndL ''g'', Begin Allocated ''g'', End, End]
     = Inr \<lparr>m_recorder_internal_running = False, m_label_helper = (), m_default_value = 0,
            m_root = Node ''root'' 5 [Node ''f'' 0 [Node ''g'' 0 []]], m_current_node = []\<rparr>
   \<and> end_scope \<lparr>m_recorder_internal_running = False, m_label_helper = (),
                 m_default_value = 0::nat, m_root = Node ''root'' 5 [], m_current_node = []\<rparr>
       = Inl StackUnderflow"
  by code_simp

text \<open>
  Claim C1. For every well-nested sequence of \<^verbatim>\<open>begin_scope\<close>/\<^verbatim>\<open>end_scope\<close> calls starting
  at the root, the current position returns to the root. The code does not keep this
  for \<^verbatim>\<open>const char *\<close> labels. Their helper interns each new label in a \<^verbatim>\<open>string_db_t\<close>,
  and \<^verbatim>\<open>push_back\<close> hits \<^verbatim>\<open>assert(false)\<close> in \<^verbatim>\<open>hashset_entry_t::operator==\<close> when the new
  string has the hash of a different string stored before, as \<^verbatim>\<open>"bA"\<close> has that of
  \<^verbatim>\<open>"ab"\<close>. Below, on a recorder fresh from its constructor with every allocation
  granted, the well-nested sequence \<^verbatim>\<open>begin_scope("ab")\<close>, \<^verbatim>\<open>end_scope()\<close>,
  \<^verbatim>\<open>begin_scope("bA")\<close>, \<^verbatim>\<open>end_scope()\<close> is back at the root after the first pair and then
  stops in the second \<^verbatim>\<open>begin_scope\<close> with the failed assertion: it never returns to the
  root. (\<^verbatim>\<open>end_scope\<close> at the root does fail with \<open>StackUnderflow\<close>, in both overloads.)
\<close>

theorem scope_balance_hash_collision:
  "well_nested [] [Begin Allocated ''ab'', End, Begin Allocated ''bA'', End]
   \<and> recorder_ctor (label_helper_cstr (\<lambda>n. Realloc_same)) True
        \<lparr>m_dict = [], m_data = [], m_capacity = 2048\<rparr> (0::nat) ''root'' 0 =
       Inr \<lparr>m_recorder_internal_running = False,
            m_label_helper =
              \<lparr>m_dict = [IDX_SET 0 6385662377], m_data = ''root'' @ [NUL],
               m_capacity = 2048\<rparr>,
            m_default_value = 0, m_root = Node 0 0 [], m_current_node = []\<rparr>
   \<and> run (label_helper_cstr (\<lambda>n. Realloc_same))
        \<lparr>m_recorder_internal_running = False,
         m_label_helper =
           \<lparr>m_dict = [IDX_SET 0 6385662377], m_data = ''root'' @ [NUL], m_capacity = 2048\<rparr>,
         m_default_value = 0::nat, m_root = Node 0 0 [], m_current_node = []\<rparr>
        [Begin Allocated ''ab'', End] =
       Inr \<lparr>m_recorder_internal_running = False,
            m_label_helper =
              \<lparr>m_dict = [IDX_SET 0 6385662377, IDX_SET 5 5863208],
               m_data = ''root'' @ [NUL] @ ''ab'' @ [NUL], m_capacity = 2048\<rparr>,
            m_default_value = 0, m_root = Node 0 0 [Node 5 0 []], m_current_node = []\<rparr>
   \<and> run (label_helper_cstr (\<lambda>n. Realloc_same))
        \<lparr>m_recorder_internal_running = False,
         m_label_helper =
           \<lparr>m_dict = [IDX_SET 0 6385662377], m_data = ''root'' @ [NUL], m_capacity = 2048\<rparr>,
         m_default_value = 0::nat, m_root = Node 0 0 [], m_current_node = []\<rparr>
        [Begin Allocated ''ab'', End, Begin Allocated ''bA'', End] = Inl AssertionFailed
   \<and> end_scope
        \<lparr>m_recorder_internal_running = False,
         m_label_helper =
           \<lparr>m_dict = [IDX_SET 0 6385662377], m_data = ''root'' @ [NUL], m_capacity = 2048\<rparr>,
         m_default_value = 0::nat, m_root = Node (0::nat) 0 [], m_current_node = []\<rparr>
       = Inl StackUnderflow
   \<and> end_scope_label (label_helper_cstr (\<lambda>n. Realloc_same))
        \<lparr>m_recorder_internal_running = False,
         m_label_helper =
           \<lparr>m_dict = [IDX_SET 0 6385662377], m_data = ''root'' @ [NUL], m_capacity = 2048\<rparr>,
         m_default_value = 0::nat, m_root = Node (0::nat) 0 [], m_current_node = []\<rparr>
        ''root'' = Inl StackUnderflow"
  by code_simp


subsection \<open>No two children with equal labels\<close>

lemma recorder_inv_no_equal_labels:
  assumes c: "label_contract H I V norm" and inv: "recorder_inv H I V r"
  shows "tree_all_labels (\<lambda>l ls. no_equal_labels (labels_compare_equal H (m_label_helper r)) ls)
           (m_root r)"
proof -
  from inv have I: "I (m_label_helper r)"
    and t: "tree_all_labels (label_inv H V (m_label_helper r)) (m_root r)"
    by (simp_all add: recorder_inv_def)
  show ?thesis
    by (rule tree_all_labels_mono [OF _ t])
      (simp add: label_inv_def no_equal_labels_distinct [OF c I])
qed

text \<open>
  In every state a recorder reaches from its constructor, no node has two children
  whose labels compare equal. There \<^verbatim>\<open>begin_scope(label)\<close> moves \<^verbatim>\<open>m_current_node\<close> to the
  first child of the current node whose label is equal to \<open>label\<close>, when there is one,
  and changes nothing else. When there is none, it stops with \<open>OutOfMemory\<close> if the node
  cannot be allocated, with the error of \<^verbatim>\<open>save\<close> if the label cannot be saved, and with
  \<open>OutOfMemory\<close> if the \<^verbatim>\<open>children\<close> vector cannot grow; otherwise it appends a node with
  the saved label, \<^verbatim>\<open>m_default_value\<close> and no children to the children of the current
  node, and moves \<^verbatim>\<open>m_current_node\<close> to it.
\<close>

lemma children_labels_differ:
  assumes "label_contract H I V norm" and "I h0"
    and "recorder_ctor H new_ok h0 dv root_label rv = Inr r0"
    and "run H r0 ops = Inr r"
  shows
    "tree_all_labels (\<lambda>l ls. no_equal_labels (labels_compare_equal H (m_label_helper r)) ls)
       (m_root r)
     \<and> (\<exists>cur. node_at (m_root r) (m_current_node r) = Some cur
          \<and> (\<forall>i. i < length (m_children cur)
                 \<and> lh_equal H (m_label_helper r) (m_label (m_children cur ! i)) label
                 \<and> (\<forall>k<i. \<not> lh_equal H (m_label_helper r) (m_label (m_children cur ! k)) label)
               \<longrightarrow> begin_scope H a r label = Inr (r\<lparr>m_current_node := m_current_node r @ [i]\<rparr>))
          \<and> ((\<forall>k<length (m_children cur).
                  \<not> lh_equal H (m_label_helper r) (m_label (m_children cur ! k)) label)
               \<longrightarrow> (a = New_fails \<longrightarrow> begin_scope H a r label = Inl OutOfMemory)
                 \<and> (\<forall>e. a \<noteq> New_fails \<and> lh_save H (m_label_helper r) label = Inl e
                        \<longrightarrow> begin_scope H a r label = Inl e)
                 \<and> (\<forall>l h'. a = Emplace_back_fails
                          \<and> lh_save H (m_label_helper r) label = Inr (l, h')
                        \<longrightarrow> begin_scope H a r label = Inl OutOfMemory)
                 \<and> (\<forall>l h'. a = Allocated \<and> lh_save H (m_label_helper r) label = Inr (l, h')
                        \<longrightarrow> (\<exists>r'. begin_scope H a r label = Inr r'
                              \<and> r' = r\<lparr>m_label_helper := h',
                                      m_root := update_at
                                        (emplace_back (Node l (m_default_value r) []))
                                        (m_current_node r) (m_root r),
                                      m_current_node :=
                                        m_current_node r @ [length (m_children cur)]\<rparr>
                              \<and> node_at (m_root r') (m_current_node r) =
                                  Some (Node (m_label cur) (m_value cur)
                                         (m_children cur @ [Node l (m_default_value r) []]))
                              \<and> node_at (m_root r') (m_current_node r') =
                                  Some (Node l (m_default_value r) [])))))"
proof -
  let ?h = "m_label_helper r"
  have inv: "recorder_inv H I V r"
    by (rule run_inv [OF assms(1) recorder_ctor_inv [OF assms(1-3)] assms(4)])
  from inv obtain cur where cur: "node_at (m_root r) (m_current_node r) = Some cur"
    by (auto simp: recorder_inv_def)
  from inv have flag: "r\<lparr>m_recorder_internal_running := False\<rparr> = r"
    by (simp add: recorder_inv_def)
  have found: "begin_scope H a r label = Inr (r\<lparr>m_current_node := m_current_node r @ [i]\<rparr>)"
    if "i < length (m_children cur)" "lh_equal H ?h (m_label (m_children cur ! i)) label"
      "\<forall>k<i. \<not> lh_equal H ?h (m_label (m_children cur ! k)) label" for i
  proof -
    from that have "scan_children (\<lambda>l. lh_equal H ?h l label) (m_children cur) 0 = Some i"
      by (intro scan_children_first) simp_all
    from begin_scope_found [OF cur this] inv show ?thesis
      by (simp add: recorder_inv_def)
  qed
  have new: "(a = New_fails \<longrightarrow> begin_scope H a r label = Inl OutOfMemory)
     \<and> (\<forall>e. a \<noteq> New_fails \<and> lh_save H ?h label = Inl e \<longrightarrow> begin_scope H a r label = Inl e)
     \<and> (\<forall>l h'. a = Emplace_back_fails \<and> lh_save H ?h label = Inr (l, h')
            \<longrightarrow> begin_scope H a r label = Inl OutOfMemory)
     \<and> (\<forall>l h'. a = Allocated \<and> lh_save H ?h label = Inr (l, h')
            \<longrightarrow> (\<exists>r'. begin_scope H a r label = Inr r'
                  \<and> r' = r\<lparr>m_label_helper := h',
                          m_root := update_at (emplace_back (Node l (m_default_value r) []))
                                      (m_current_node r) (m_root r),
                          m_current_node := m_current_node r @ [length (m_children cur)]\<rparr>
                  \<and> node_at (m_root r') (m_current_node r) =
                      Some (Node (m_label cur) (m_value cur)
                             (m_children cur @ [Node l (m_default_value r) []]))
                  \<and> node_at (m_root r') (m_current_node r') =
                      Some (Node l (m_default_value r) [])))"
    if none: "\<forall>k<length (m_children cur). \<not> lh_equal H ?h (m_label (m_children cur ! k)) label"
  proof -
    from none have sc: "scan_children (\<lambda>l. lh_equal H ?h l label) (m_children cur) 0 = None"
      by (simp add: scan_children_None)
    have "begin_scope H a r label = Inl OutOfMemory" if "a = New_fails"
      using that cur sc by (simp add: begin_scope_unfold)
    moreover have "begin_scope H a r label = Inl e"
      if "a \<noteq> New_fails" "lh_save H ?h label = Inl e" for e
      using that cur sc by (simp add: begin_scope_unfold)
    moreover have "begin_scope H a r label = Inl OutOfMemory"
      if "a = Emplace_back_fails" "lh_save H ?h label = Inr (l, h')" for l h'
      using that cur sc by (simp add: begin_scope_unfold)
    moreover have "\<exists>r'. begin_scope H a r label = Inr r'
                  \<and> r' = r\<lparr>m_label_helper := h',
                          m_root := update_at (emplace_back (Node l (m_default_value r) []))
                                      (m_current_node r) (m_root r),
                          m_current_node := m_current_node r @ [length (m_children cur)]\<rparr>
                  \<and> node_at (m_root r') (m_current_node r) =
                      Some (Node (m_label cur) (m_value cur)
                             (m_children cur @ [Node l (m_default_value r) []]))
                  \<and> node_at (m_root r') (m_current_node r') =
                      Some (Node l (m_default_value r) [])"
      if al: "a = Allocated" and s: "lh_save H ?h label = Inr (l, h')" for l h'
    proof -
      let ?c = "Node l (m_default_value r) []"
      let ?root = "update_at (emplace_back ?c) (m_current_node r) (m_root r)"
      have at: "node_at ?root (m_current_node r) = Some (emplace_back ?c cur)"
        by (rule node_at_update_at [OF cur])
      then have "node_at ?root (m_current_node r @ [length (m_children cur)]) = Some ?c"
        by (simp add: node_at_append emplace_back_def)
      with at begin_scope_new [OF cur sc s] inv al show ?thesis
        by (simp add: recorder_inv_def emplace_back_def)
    qed
    ultimately show ?thesis by blast
  qed
  from recorder_inv_no_equal_labels [OF assms(1) inv] cur found new show ?thesis
    by blast
qed

lemma children_labels_differ_example:
  "string_db_inv \<lparr>m_dict = [], m_data = [], m_capacity = 2048\<rparr>
   \<and> recorder_ctor (label_helper_cstr (\<lambda>n. Realloc_same)) True
        \<lparr>m_dict = [], m_data = [], m_capacity = 2048\<rparr> (0::nat) ''root'' 0 =
       Inr \<lparr>m_recorder_internal_running = False,
            m_label_helper =
              \<lparr>m_dict = [IDX_SET 0 6385662377], m_data = ''root'' @ [NUL],
               m_capacity = 2048\<rparr>,
            m_default_value = 0, m_root = Node 0 0 [], m_current_node = []\<rparr>
   \<and> run (label_helper_cstr (\<lambda>n. Realloc_same))
        \<lparr>m_recorder_internal_running = False,
         m_label_helper =
           \<lparr>m_dict = [IDX_SET 0 6385662377], m_data = ''root'' @ [NUL], m_capacity = 2048\<rparr>,
         m_default_value = 0::nat, m_root = Node 0 0 [], m_current_node = []\<rparr>
        [Begin Allocated ''f'', Begin Allocated ''g'', End, End, Begin Allocated ''h'', End,
         Begin Allocated ''f''] =
       Inr \<lparr>m_recorder_internal_running = False,
            m_label_helper =
              \<lparr>m_dict = [IDX_SET 0 6385662377, IDX_SET 5 177675, IDX_SET 7 177676,
                         IDX_SET 9 177677],
               m_data = ''root'' @ [NUL] @ ''f'' @ [NUL] @ ''g'' @ [NUL] @ ''h'' @ [NUL],
               m_capacity = 2048\<rparr>,
            m_default_value = 0,
            m_root = Node 0 0 [Node 5 0 [Node 7 0 []], Node 9 0 []],
            m_current_node = [0]\<rparr>
   \<and> tree_all_labels
        (\<lambda>l ls. no_equal_labels
           (labels_compare_equal (label_helper_cstr (\<lambda>n. Realloc_same))
              \<lparr>m_dict = [IDX_SET 0 6385662377, IDX_SET 5 177675, IDX_SET 7 177676,
                         IDX_SET 9 177677],
               m_data = ''root'' @ [NUL] @ ''f'' @ [NUL] @ ''g'' @ [NUL] @ ''h'' @ [NUL],
               m_capacity = 2048\<rparr>) ls)
        (Node 0 (0::nat) [Node 5 0 [Node 7 0 []], Node 9 0 []])
   \<and> begin_scope (label_helper_cstr (\<lambda>n. Realloc_same)) Allocated
        \<lparr>m_recorder_internal_running = False,
         m_label_helper =
           \<lparr>m_dict = [IDX_SET 0 6385662377, IDX_SET 5 177675, IDX_SET 7 177676,
                      IDX_SET 9 177677],
            m_data = ''root'' @ [NUL] @ ''f'' @ [NUL] @ ''g'' @ [NUL] @ ''h'' @ [NUL],
            m_capacity = 2048\<rparr>,
         m_default_value = 0::nat,
         m_root = Node 0 0 [Node 5 0 [Node 7 0 []], Node 9 0 []],
         m_current_node = [0]\<rparr> ''g'' =
       Inr \<lparr>m_recorder_internal_running = False,
            m_label_helper =
              \<lparr>m_dict = [IDX_SET 0 6385662377, IDX_SET 5 177675, IDX_SET 7 177676,
                         IDX_SET 9 177677],
               m_data = ''root'' @ [NUL] @ ''f'' @ [NUL] @ ''g'' @ [NUL] @ ''h'' @ [NUL],
               m_capacity = 2048\<rparr>,
            m_default_value = 0,
            m_root = Node 0 0 [Node 5 0 [Node 7 0 []], Node 9 0 []],
            m_current_node = [0, 0]\<rparr>"
proof -
  let ?C = "label_helper_cstr (\<lambda>n. Realloc_same)"
  let ?h = "\<lparr>m_dict = [], m_data = [], m_capacity = 2048\<rparr>"
  let ?db = "\<lparr>m_dict = [IDX_SET 0 6385662377, IDX_SET 5 177675, IDX_SET 7 177676,
                       IDX_SET 9 177677],
             m_data = ''root'' @ [NUL] @ ''f'' @ [NUL] @ ''g'' @ [NUL] @ ''h'' @ [NUL],
             m_capacity = 2048\<rparr>"
  let ?init = "\<lparr>m_recorder_internal_running = False,
         m_label_helper =
           \<lparr>m_dict = [IDX_SET 0 6385662377], m_data = ''root'' @ [NUL], m_capacity = 2048\<rparr>,
         m_default_value = 0::nat, m_root = Node (0::nat) 0 [], m_current_node = []\<rparr>"
  let ?t = "Node 0 (0::nat) [Node 5 0 [Node 7 0 []], Node (9::nat) 0 []]"
  let ?fin = "\<lparr>m_recorder_internal_running = False, m_label_helper = ?db,
         m_default_value = 0::nat, m_root = ?t, m_current_node = [0]\<rparr>"
  have i: "string_db_inv ?h"
    by (simp add: string_db_inv_def m_size_def)
  have c: "recorder_ctor ?C True ?h (0::nat) ''root'' 0 = Inr ?init"
    by code_simp
  have r: "run ?C ?init [Begin Allocated ''f'', Begin Allocated ''g'', End, End,
                         Begin Allocated ''h'', End, Begin Allocated ''f'']
             = Inr ?fin"
    by code_simp
  from children_labels_differ [OF label_contract_cstr i c r, of "''g''" Allocated]
  obtain cur where t: "tree_all_labels
        (\<lambda>l ls. no_equal_labels (labels_compare_equal ?C (m_label_helper ?fin)) ls)
        (m_root ?fin)"
    and cur: "node_at (m_root ?fin) (m_current_node ?fin) = Some cur"
    and found: "\<And>i. i < length (m_children cur)
                 \<and> lh_equal ?C (m_label_helper ?fin) (m_label (m_children cur ! i)) ''g''
                 \<and> (\<forall>k<i. \<not> lh_equal ?C (m_label_helper ?fin) (m_label (m_children cur ! k)) ''g'')
               \<Longrightarrow> begin_scope ?C Allocated ?fin ''g'' =
                     Inr (?fin\<lparr>m_current_node := m_current_node ?fin @ [i]\<rparr>)"
    by blast
  from cur have cur': "cur = Node 5 0 [Node 7 0 []]" by simp
  have "lh_equal ?C ?db 7 ''g''"
    by code_simp
  with found [of 0] cur' have
    "begin_scope ?C Allocated ?fin ''g'' = Inr (?fin\<lparr>m_current_node := [0, 0]\<rparr>)"
    by simp
  with i c r t show ?thesis by simp
qed

text \<open>
  Claim C5. \<^verbatim>\<open>begin_scope(label)\<close> scans the children of the current node for a label that
  compares equal and moves to it if found; otherwise it creates a new node with
  \<^verbatim>\<open>m_default_value\<close>, appends it and moves to it, so that no node has two children with
  equal labels. The code does not keep the second half for \<^verbatim>\<open>const char *\<close> labels. The
  state below is the one after the constructor, \<^verbatim>\<open>begin_scope("ab")\<close> and \<^verbatim>\<open>end_scope()\<close>:
  the root is current and has one child, labelled \<^verbatim>\<open>"ab"\<close>. For \<^verbatim>\<open>"bA"\<close> the scan finds no
  equal label and every allocation is granted, yet \<^verbatim>\<open>begin_scope("bA")\<close> creates no node:
  saving the label runs into \<^verbatim>\<open>assert(false)\<close> in \<^verbatim>\<open>hashset_entry_t::operator==\<close>, because
  \<^verbatim>\<open>"bA"\<close> has the hash of \<^verbatim>\<open>"ab"\<close>.
\<close>

theorem begin_scope_hash_collision:
  "(case recorder_ctor (label_helper_cstr (\<lambda>n. Realloc_same)) True
           \<lparr>m_dict = [], m_data = [], m_capacity = 2048\<rparr> (0::nat) ''root'' (0::nat) of
      Inl e \<Rightarrow> Inl e
    | Inr r0 \<Rightarrow>
        run (label_helper_cstr (\<lambda>n. Realloc_same)) r0 [Begin Allocated ''ab'', End]) =
     Inr \<lparr>m_recorder_internal_running = False,
          m_label_helper =
            \<lparr>m_dict = [IDX_SET 0 6385662377, IDX_SET 5 5863208],
             m_data = ''root'' @ [NUL] @ ''ab'' @ [NUL], m_capacity = 2048\<rparr>,
          m_default_value = 0, m_root = Node 0 0 [Node 5 0 []], m_current_node = []\<rparr>
   \<and> node_at (Node (0::nat) (0::nat) [Node 5 0 []]) [] = Some (Node 0 0 [Node 5 0 []])
   \<and> lh_restore (label_helper_cstr (\<lambda>n. Realloc_same))
        \<lparr>m_dict = [IDX_SET 0 6385662377, IDX_SET 5 5863208],
         m_data = ''root'' @ [NUL] @ ''ab'' @ [NUL], m_capacity = 2048\<rparr> 5 = ''ab''
   \<and> \<not> lh_equal (label_helper_cstr (\<lambda>n. Realloc_same))
        \<lparr>m_dict = [IDX_SET 0 6385662377, IDX_SET 5 5863208],
         m_data = ''root'' @ [NUL] @ ''ab'' @ [NUL], m_capacity = 2048\<rparr> 5 ''bA''
   \<and> scan_children
        (\<lambda>l. lh_equal (label_helper_cstr (\<lambda>n. Realloc_same))
           \<lparr>m_dict = [IDX_SET 0 6385662377, IDX_SET 5 5863208],
            m_data = ''root'' @ [NUL] @ ''ab'' @ [NUL], m_capacity = 2048\<rparr> l ''bA'')
        [Node (5::nat) (0::nat) []] 0 = None
   \<and> begin_scope (label_helper_cstr (\<lambda>n. Realloc_same)) Allocated
        \<lparr>m_recorder_internal_running = False,
         m_label_helper =
           \<lparr>m_dict = [IDX_SET 0 6385662377, IDX_SET 5 5863208],
            m_data = ''root'' @ [NUL] @ ''ab'' @ [NUL], m_capacity = 2048\<rparr>,
         m_default_value = 0::nat, m_root = Node 0 0 [Node 5 0 []], m_current_node = []\<rparr>
        ''bA'' = Inl AssertionFailed
   \<and> begin_scope (label_helper_cstr (\<lambda>n. Realloc_same)) Allocated
        \<lparr>m_recorder_internal_running = False,
         m_label_helper =
           \<lparr>m_dict = [IDX_SET 0 6385662377, IDX_SET 5 5863208],
            m_data = ''root'' @ [NUL] @ ''ab'' @ [NUL], m_capacity = 2048\<rparr>,
         m_default_value = 0::nat, m_root = Node 0 0 [Node 5 0 []], m_current_node = []\<rparr>
        ''ac'' =
       Inr \<lparr>m_recorder_internal_running = False,
            m_label_helper =
              \<lparr>m_dict = [IDX_SET 0 6385662377, IDX_SET 5 5863208, IDX_SET 8 5863209],
               m_data = ''root'' @ [NUL] @ ''ab'' @ [NUL] @ ''ac'' @ [NUL],
               m_capacity = 2048\<rparr>,
            m_default_value = 0, m_root = Node 0 0 [Node 5 0 [], Node 8 0 []],
            m_current_node = [1]\<rparr>"
  by code_simp

subsection \<open>Scopes and stored measures\<close>

lemma m_value_emplace_back [simp]: "m_value (emplace_back c n) = m_value n"
  by (simp add: emplace_back_def)

text \<open>
  Claim C10. Let \<^verbatim>\<open>m_current_node\<close> point to the node \<open>cur\<close>. A successful
  \<^verbatim>\<open>begin_scope(L)\<close> leaves every node of the tree where it was, with its label and its
  measure. When a child of \<open>cur\<close> has a label equal to \<open>L\<close>, the tree is not changed
  at all, \<^verbatim>\<open>m_current_node\<close> moves to such a child, and \<^verbatim>\<open>cnt()\<close> then reads the measure
  that child had. When no child has, the tree gains exactly one node, the new current
  node, which carries \<^verbatim>\<open>m_default_value\<close>. Both overloads of \<^verbatim>\<open>end_scope\<close> leave the tree
  as it is.
\<close>

theorem scopes_keep_measures:
  assumes cur: "node_at (m_root r) (m_current_node r) = Some cur"
  shows
    "(\<forall>r'. begin_scope H a r L = Inr r' \<longrightarrow>
        (\<forall>p n. node_at (m_root r) p = Some n \<longrightarrow>
           (\<exists>n'. node_at (m_root r') p = Some n'
                \<and> m_value n' = m_value n \<and> m_label n' = m_label n))
      \<and> ((\<exists>i<length (m_children cur).
             lh_equal H (m_label_helper r) (m_label (m_children cur ! i)) L) \<longrightarrow>
           m_root r' = m_root r
         \<and> (\<exists>i<length (m_children cur).
               lh_equal H (m_label_helper r) (m_label (m_children cur ! i)) L
             \<and> m_current_node r' = m_current_node r @ [i]
             \<and> cnt r' = Some (m_value (m_children cur ! i))))
      \<and> ((\<forall>i<length (m_children cur).
             \<not> lh_equal H (m_label_helper r) (m_label (m_children cur ! i)) L) \<longrightarrow>
           count_nodes (m_root r') = Suc (count_nodes (m_root r))
         \<and> (\<exists>l. node_at (m_root r') (m_current_node r') =
                  Some (Node l (m_default_value r) []))))
     \<and> (\<forall>r'. end_scope r = Inr r' \<longrightarrow> m_root r' = m_root r)
     \<and> (\<forall>r'. end_scope_label H r L = Inr r' \<longrightarrow> m_root r' = m_root r)"
proof -
  let ?h = "m_label_helper r"
  let ?eq = "\<lambda>l. lh_equal H ?h l L"
  have b: "(\<forall>p n. node_at (m_root r) p = Some n \<longrightarrow>
           (\<exists>n'. node_at (m_root r') p = Some n'
                \<and> m_value n' = m_value n \<and> m_label n' = m_label n))
      \<and> ((\<exists>i<length (m_children cur). ?eq (m_label (m_children cur ! i))) \<longrightarrow>
           m_root r' = m_root r
         \<and> (\<exists>i<length (m_children cur). ?eq (m_label (m_children cur ! i))
             \<and> m_current_node r' = m_current_node r @ [i]
             \<and> cnt r' = Some (m_value (m_children cur ! i))))
      \<and> ((\<forall>i<length (m_children cur). \<not> ?eq (m_label (m_children cur ! i))) \<longrightarrow>
           count_nodes (m_root r') = Suc (count_nodes (m_root r))
         \<and> (\<exists>l. node_at (m_root r') (m_current_node r') =
                  Some (Node l (m_default_value r) [])))"
    if br: "begin_scope H a r L = Inr r'" for r'
  proof (cases "scan_children ?eq (m_children cur) 0")
    case (Some i)
    from scan_children_Some [OF Some] have i: "i < length (m_children cur)"
      and e: "?eq (m_label (m_children cur ! i))" by simp_all
    from br have r': "r' = r\<lparr>m_current_node := m_current_node r @ [i],
                              m_recorder_internal_running := False\<rparr>"
      by (simp add: begin_scope_found [OF cur Some])
    from node_at_snoc [OF cur i] r' have "cnt r' = Some (m_value (m_children cur ! i))"
      by (simp add: cnt_def)
    with r' i e show ?thesis by auto
  next
    case None
    then have none: "\<forall>i<length (m_children cur). \<not> ?eq (m_label (m_children cur ! i))"
      by (simp add: scan_children_None)
    from begin_scope_returns_new [OF cur None br] obtain l h' where
      s: "lh_save H ?h L = Inr (l, h')" and a: "a = Allocated"
      by blast
    let ?c = "Node l (m_default_value r) []"
    let ?root = "update_at (emplace_back ?c) (m_current_node r) (m_root r)"
    from br a have r': "r' = r\<lparr>m_label_helper := h', m_root := ?root,
                   m_current_node := m_current_node r @ [length (m_children cur)],
                   m_recorder_internal_running := False\<rparr>"
      by (simp add: begin_scope_new [OF cur None s])
    have kept: "\<exists>n'. node_at ?root p = Some n' \<and> m_value n' = m_value n \<and> m_label n' = m_label n"
      if "node_at (m_root r) p = Some n" for p n
      using node_at_update_keeps [OF keeps_children_emplace_back that, of ?c "m_current_node r"]
      by auto
    have "node_at ?root (m_current_node r) = Some (emplace_back ?c cur)"
      by (rule node_at_update_at [OF cur])
    then have "node_at ?root (m_current_node r @ [length (m_children cur)]) = Some ?c"
      by (simp add: node_at_append emplace_back_def)
    with kept none count_nodes_update_emplace_back [OF cur, of l "m_default_value r"] r'
    show ?thesis by auto
  qed
  have "m_root r' = m_root r" if "end_scope r = Inr r'" for r'
    using that by (auto simp: end_scope_unfold split: if_splits)
  moreover have "m_root r' = m_root r" if "end_scope_label H r L = Inr r'" for r'
    using that by (auto simp: end_scope_label_unfold [OF cur] split: if_splits)
  ultimately show ?thesis using b by blast
qed

theorem scopes_keep_measures_witness:
  "node_at (Node (0::nat) (7::nat) [Node 1 8 [], Node 2 9 []]) [] =
     Some (Node 0 7 [Node 1 8 [], Node 2 9 []])
   \<and> begin_scope label_helper_primary Allocated
        \<lparr>m_recorder_internal_running = False, m_label_helper = (), m_default_value = 0::nat,
         m_root = Node (0::nat) 7 [Node 1 8 [], Node 2 9 []], m_current_node = []\<rparr> 2 =
     Inr \<lparr>m_recorder_internal_running = False, m_label_helper = (), m_default_value = 0,
          m_root = Node 0 7 [Node 1 8 [], Node 2 9 []], m_current_node = [1]\<rparr>
   \<and> (\<exists>n'. node_at (Node (0::nat) (7::nat) [Node 1 8 [], Node 2 9 []]) [1] = Some n'
          \<and> m_value n' = 9 \<and> m_label n' = 2)
   \<and> begin_scope label_helper_primary Allocated
        \<lparr>m_recorder_internal_running = False, m_label_helper = (), m_default_value = 0::nat,
         m_root = Node (0::nat) 7 [Node 1 8 [], Node 2 9 []], m_current_node = []\<rparr> 5 =
     Inr \<lparr>m_recorder_internal_running = False, m_label_helper = (), m_default_value = 0,
          m_root = Node 0 7 [Node 1 8 [], Node 2 9 [], Node 5 0 []], m_current_node = [2]\<rparr>
   \<and> count_nodes (Node (0::nat) (7::nat) [Node 1 8 [], Node 2 9 [], Node 5 0 []]) =
       Suc (count_nodes (Node (0::nat) (7::nat) [Node 1 8 [], Node 2 9 []]))
   \<and> end_scope
        \<lparr>m_recorder_internal_running = False, m_label_helper = (), m_default_value = 0::nat,
         m_root = Node (0::nat) 7 [Node 1 8 [], Node 2 9 []], m_current_node = [1]\<rparr> =
     Inr \<lparr>m_recorder_internal_running = False, m_label_helper = (), m_default_value = 0,
          m_root = Node 0 7 [Node 1 8 [], Node 2 9 []], m_current_node = []\<rparr>"
proof -
  let ?t = "Node (0::nat) (7::nat) [Node 1 8 [], Node 2 9 []]"
  let ?u = "Node (0::nat) (7::nat) [Node 1 8 [], Node 2 9 [], Node 5 0 []]"
  let ?a = "\<lparr>m_recorder_internal_running = False, m_label_helper = (),
             m_default_value = 0::nat, m_root = ?t, m_current_node = []\<rparr>"
  let ?b = "\<lparr>m_recorder_internal_running = False, m_label_helper = (),
              m_default_value = 0::nat, m_root = ?t, m_current_node = [1]\<rparr>"
  let ?c = "\<lparr>m_recorder_internal_running = False, m_label_helper = (),
              m_default_value = 0::nat, m_root = ?u, m_current_node = [2]\<rparr>"
  have cur: "node_at (m_root ?a) (m_current_node ?a) = Some ?t" by simp
  have b: "begin_scope label_helper_primary Allocated ?a 2 = Inr ?b" by code_simp
  have c: "begin_scope label_helper_primary Allocated ?a 5 = Inr ?c" by code_simp
  have e: "end_scope ?b = Inr ?a" by code_simp
  have at: "node_at (m_root ?a) [1] = Some (Node 2 9 [])" by simp
  have none: "\<forall>i<length (m_children ?t).
                \<not> lh_equal label_helper_primary (m_label_helper ?a) (m_label (m_children ?t ! i)) 5"
    by (simp add: label_helper_primary_def less_Suc_eq)
  from scopes_keep_measures [OF cur, of label_helper_primary Allocated 2] b at
  have "\<exists>n'. node_at (m_root ?b) [1] = Some n' \<and> m_value n' = m_value (Node (2::nat) (9::nat) [])
             \<and> m_label n' = m_label (Node (2::nat) (9::nat) [])"
    by blast
  moreover from scopes_keep_measures [OF cur, of label_helper_primary Allocated 5] c none
  have "count_nodes (m_root ?c) = Suc (count_nodes (m_root ?a))"
    by blast
  ultimately show ?thesis using b c e by simp
qed

section \<open>Properties of the reports\<close>

subsection \<open>The collapsed-stack text\<close>

lemma join_with_snoc:
  "xs \<noteq> [] \<Longrightarrow> join_with sep (xs @ [y]) = join_with sep xs @ sep @ y"
  by (induction sep xs rule: join_with.induct) simp_all

lemma print_stack_join:
  "print_stack l_out rst l parents os =
     os @ join_with '';'' (map (\<lambda>l. l_out (rst l)) (rev parents @ [l]))"
proof (induction parents arbitrary: l)
  case Nil
  then show ?case by simp
next
  case (Cons p ps)
  have "join_with '';'' (map (\<lambda>l. l_out (rst l)) ((rev ps @ [p]) @ [l])) =
        join_with '';'' (map (\<lambda>l. l_out (rst l)) (rev ps @ [p])) @ '';'' @ l_out (rst l)"
    using join_with_snoc [of "map (\<lambda>l. l_out (rst l)) (rev ps @ [p])" "'';''" "l_out (rst l)"]
    by simp
  with Cons [of p] show ?case by simp
qed

lemma to_collapsed_stack_lines:
  "to_collapsed_stack l_out m_out rst parents t os =
     os @ concat (map (collapsed_line l_out m_out rst) (preorder_paths (rev parents) t))"
  "to_collapsed_stack_children l_out m_out rst parents cs os =
     os @ concat (map (collapsed_line l_out m_out rst)
                    (concat (map (preorder_paths (rev parents)) cs)))"
proof (induction l_out m_out rst parents t os and l_out m_out rst parents cs os
    rule: to_collapsed_stack_to_collapsed_stack_children.induct)
  case (1 l_out m_out rst parents l v cs os)
  then show ?case
    by (simp add: print_stack_join collapsed_line_def)
next
  case (2 l_out m_out rst parents os)
  then show ?case by simp
next
  case (3 l_out m_out rst parents c cs os)
  then show ?case by simp
qed

lemma length_preorder_paths: "length (preorder_paths pre t) = count_nodes t"
proof (induction t arbitrary: pre)
  case (Node l v cs)
  have "map (\<lambda>x. length (preorder_paths (pre @ [l]) x)) cs = map count_nodes cs"
    using Node by simp
  then have "sum_list (map (\<lambda>x. length (preorder_paths (pre @ [l]) x)) cs) =
             sum_list (map count_nodes cs)"
    by (rule arg_cong)
  then show ?case
    by (simp add: length_concat comp_def)
qed

lemma preorder_paths_nodes:
  "(ls, v) \<in> set (preorder_paths pre t) \<longleftrightarrow>
   (\<exists>p n. node_at t p = Some n \<and> ls = pre @ labels_on_path t p \<and> v = m_value n)"
proof (induction t arbitrary: pre)
  case (Node l v0 cs)
  show ?case
  proof
    assume "(ls, v) \<in> set (preorder_paths pre (Node l v0 cs))"
    then consider "ls = pre @ [l]" "v = v0"
      | c where "c \<in> set cs" "(ls, v) \<in> set (preorder_paths (pre @ [l]) c)"
      by auto
    then show "\<exists>p n. node_at (Node l v0 cs) p = Some n
                 \<and> ls = pre @ labels_on_path (Node l v0 cs) p \<and> v = m_value n"
    proof cases
      case 1
      then have "node_at (Node l v0 cs) [] = Some (Node l v0 cs)
                 \<and> ls = pre @ labels_on_path (Node l v0 cs) [] \<and> v = m_value (Node l v0 cs)"
        by simp
      then show ?thesis by blast
    next
      case 2
      from 2(1) obtain k where k: "k < length cs" "c = cs ! k"
        by (auto simp: in_set_conv_nth)
      from Node [OF 2(1), of "pre @ [l]"] 2(2) obtain p n where
        "node_at c p = Some n" "ls = (pre @ [l]) @ labels_on_path c p" "v = m_value n"
        by blast
      with k have "node_at (Node l v0 cs) (k # p) = Some n
                 \<and> ls = pre @ labels_on_path (Node l v0 cs) (k # p) \<and> v = m_value n"
        by simp
      then show ?thesis by blast
    qed
  next
    assume "\<exists>p n. node_at (Node l v0 cs) p = Some n
                 \<and> ls = pre @ labels_on_path (Node l v0 cs) p \<and> v = m_value n"
    then obtain p n where at: "node_at (Node l v0 cs) p = Some n"
      and ls: "ls = pre @ labels_on_path (Node l v0 cs) p" and v: "v = m_value n"
      by blast
    show "(ls, v) \<in> set (preorder_paths pre (Node l v0 cs))"
    proof (cases p)
      case Nil
      with at ls v show ?thesis by auto
    next
      case (Cons k ks)
      with at have k: "k < length cs" and at': "node_at (cs ! k) ks = Some n"
        by (simp_all split: if_splits)
      from k have mem: "cs ! k \<in> set cs" by simp
      from Cons k ls have "ls = (pre @ [l]) @ labels_on_path (cs ! k) ks" by simp
      with at' v Node [OF mem, of "pre @ [l]"]
      have "(ls, v) \<in> set (preorder_paths (pre @ [l]) (cs ! k))" by blast
      with mem show ?thesis by auto
    qed
  qed
qed

text \<open>
  Claim C3. The text \<^verbatim>\<open>to_collapsed_stacks\<close> appends to the stream is one line for every
  node of the tree, in pre-order. The line of a node is the labels on the path from the
  root down to the node, each restored and written by the caller's \<open>l_out\<close> and joined
  by \<open>;\<close>, then one space, then the node's measure written by the caller's \<open>m_out\<close>,
  then a newline. Interior nodes have their lines like leaves: the entries of
  \<open>preorder_paths\<close> are exactly the nodes of the tree, as many as there are nodes.
\<close>

theorem collapsed_stack_output:
  "snd (to_collapsed_stacks H r os l_out m_out) =
     os @ concat (map (collapsed_line l_out m_out (lh_restore H (m_label_helper r)))
                    (preorder_paths [] (m_root r)))
   \<and> length (preorder_paths [] (m_root r)) = count_nodes (m_root r)
   \<and> ((ls, v) \<in> set (preorder_paths [] (m_root r)) \<longleftrightarrow>
        (\<exists>p n. node_at (m_root r) p = Some n \<and> ls = labels_on_path (m_root r) p
              \<and> v = m_value n))"
  using to_collapsed_stack_lines(1)
          [of l_out m_out "lh_restore H (m_label_helper r)" "[]" "m_root r" os]
    preorder_paths_nodes [of ls v "[]" "m_root r"]
  by (simp add: to_collapsed_stacks_def length_preorder_paths)

theorem collapsed_stack_output_witness:
  "snd (to_collapsed_stacks label_helper_primary
          \<lparr>m_recorder_internal_running = False, m_label_helper = (), m_default_value = 0::nat,
           m_root = Node ''root'' 1 [Node ''f1'' 2 [Node ''f2'' 3 [Node ''f3'' 4 []]]],
           m_current_node = []\<rparr>
          [] (\<lambda>l. l) (\<lambda>m. [''0123456789'' ! m])) =
     ''root 1'' @ newline @ ''root;f1 2'' @ newline @ ''root;f1;f2 3'' @ newline
       @ ''root;f1;f2;f3 4'' @ newline"
  using collapsed_stack_output
          [of label_helper_primary
              "\<lparr>m_recorder_internal_running = False, m_label_helper = (),
                m_default_value = 0::nat,
                m_root = Node ''root'' 1 [Node ''f1'' 2 [Node ''f2'' 3 [Node ''f3'' 4 []]]],
                m_current_node = []\<rparr>"
              "[]" "\<lambda>l. l" "\<lambda>m. [''0123456789'' ! m]", THEN conjunct1]
  by (simp add: collapsed_line_def label_helper_primary_def newline_def)

subsection \<open>Totals\<close>

lemma foldl_add_sum_list:
  fixes a :: "'a::monoid_add"
  shows "foldl (+) a xs = a + sum_list xs"
  by (induction xs arbitrary: a) (simp_all add: add.assoc)

lemma sum_list_concat_lists:
  fixes xss :: "'a::monoid_add list list"
  shows "sum_list (concat xss) = sum_list (map sum_list xss)"
  by (induction xss) simp_all

lemma total_of_add:
  fixes t :: "('i, 'm::monoid_add) measure_node_t"
  shows "total_of (+) t = sum_list (tree_values t)"
proof (induction t)
  case (Node l v cs)
  have "map (total_of (+)) cs = map (\<lambda>c. sum_list (tree_values c)) cs"
    using Node by simp
  then have "sum_list (map (total_of (+)) cs) = sum_list (map (\<lambda>c. sum_list (tree_values c)) cs)"
    by (rule arg_cong)
  then show ?case
    by (simp add: foldl_add_sum_list sum_list_concat_lists comp_def)
qed

lemma to_report_total:
  "fst (to_report_node op rst t report) = total_of op t"
  "fst (to_report_children op rst cs tot report) = foldl op tot (map (total_of op) cs)"
proof (induction op rst t report and op rst cs tot report
    rule: to_report_node_to_report_children.induct)
  case (1 op rst l v cs report)
  then show ?case
    by (cases "to_report_children op rst cs v report") (simp add: Let_def)
next
  case (2 op rst tot report)
  then show ?case by simp
next
  case (3 op rst c cs tot report)
  then show ?case
    by (cases "to_report_node op rst c report") simp
qed

text \<open>
  Claim C4. The total \<^verbatim>\<open>to_report\<close> computes for a node, whatever the report holds already,
  is the node's own measure combined by \<open>op\<close> with the totals of its children, one after
  the other. When \<open>op\<close> is addition, the total of a tree's root is the sum of the
  measures of all its nodes.
\<close>

theorem report_total:
  fixes t :: "('i, 'm) measure_node_t" and ta :: "('i, 'a::monoid_add) measure_node_t"
  shows
    "fst (to_report_node op rst t report) = total_of op t
     \<and> total_of op (Node l v cs) = foldl op v (map (total_of op) cs)
     \<and> fst (to_report_node (+) rsta ta reporta) = sum_list (tree_values ta)"
  by (simp add: to_report_total total_of_add)

subsection \<open>One entry per label\<close>

lemma foldl_add_occurrence_Some:
  "foldl (add_occurrence op) (Some e) ns =
     Some \<lparr>self = foldl op (self e) (map m_value ns),
           total = foldl op (total e) (map (total_of op) ns)\<rparr>"
  by (induction ns arbitrary: e) (simp_all add: add_occurrence_def)

lemma foldl_add_occurrence_None:
  "foldl (add_occurrence op) None ns = combined_entry op ns"
  by (cases ns) (simp_all add: foldl_add_occurrence_Some add_occurrence_def)

lemma report_update_label:
  "(case report label of
      Some it \<Rightarrow> report(label \<mapsto> \<lparr>self = op (self it) v, total = op (total it) tot\<rparr>)
    | None \<Rightarrow> report(label \<mapsto> \<lparr>self = v, total = tot\<rparr>)) L =
   (if label = L
    then (case report L of
            None \<Rightarrow> Some \<lparr>self = v, total = tot\<rparr>
          | Some it \<Rightarrow> Some \<lparr>self = op (self it) v, total = op (total it) tot\<rparr>)
    else report L)"
  by (cases "report label") auto

lemma to_report_node_entry:
  assumes "to_report_children op rst cs v report = (tot, rep1)"
  shows "snd (to_report_node op rst (Node l v cs) report) L =
           (if rst l = L then add_occurrence op (rep1 L) (Node l v cs) else rep1 L)"
proof -
  from to_report_total(2) [of op rst cs v report] assms
  have tot: "tot = total_of op (Node l v cs)" by simp
  have "snd (to_report_node op rst (Node l v cs) report) L =
          (case rep1 (rst l) of
             Some it \<Rightarrow> rep1(rst l \<mapsto> \<lparr>self = op (self it) v, total = op (total it) tot\<rparr>)
           | None \<Rightarrow> rep1(rst l \<mapsto> \<lparr>self = v, total = tot\<rparr>)) L"
    using assms by (simp add: Let_def)
  also have "\<dots> = (if rst l = L then add_occurrence op (rep1 L) (Node l v cs) else rep1 L)"
    unfolding report_update_label
    by (cases "rep1 L") (simp_all add: add_occurrence_def tot)
  finally show ?thesis .
qed

lemma occurrences_Node:
  "occurrences rst L (Node l v cs) =
     filter (\<lambda>n. rst (m_label n) = L) (concat (map postorder cs))
       @ (if rst l = L then [Node l v cs] else [])"
  by (simp add: occurrences_def)

lemma to_report_entries:
  "snd (to_report_node op rst t report) L =
     foldl (add_occurrence op) (report L) (occurrences rst L t)"
  "snd (to_report_children op rst cs tot report) L =
     foldl (add_occurrence op) (report L)
       (filter (\<lambda>n. rst (m_label n) = L) (concat (map postorder cs)))"
proof (induction op rst t report and op rst cs tot report
    rule: to_report_node_to_report_children.induct)
  case (1 op rst l v cs report)
  obtain tot rep1 where ch: "to_report_children op rst cs v report = (tot, rep1)"
    by (cases "to_report_children op rst cs v report")
  from 1 ch have rep1: "rep1 L = foldl (add_occurrence op) (report L)
       (filter (\<lambda>n. rst (m_label n) = L) (concat (map postorder cs)))"
    by simp
  show ?case
    unfolding to_report_node_entry [OF ch] occurrences_Node rep1 by simp
next
  case (2 op rst tot report)
  then show ?case by simp
next
  case (3 op rst c cs tot report)
  obtain t rep1 where c: "to_report_node op rst c report = (t, rep1)"
    by (cases "to_report_node op rst c report")
  from 3(1) c have r1: "rep1 L = foldl (add_occurrence op) (report L) (occurrences rst L c)"
    by simp
  from 3(2) [OF c [symmetric]] have
    "snd (to_report_children op rst cs (op tot t) rep1) L =
       foldl (add_occurrence op) (rep1 L)
         (filter (\<lambda>n. rst (m_label n) = L) (concat (map postorder cs)))" .
  with c show ?case
    unfolding r1 by (simp add: occurrences_def)
qed

subsection \<open>Sums of machine integers\<close>



text \<open>
  With addition on measures that are never negative and cannot wrap around, such as
  natural numbers of unbounded size, the \<open>total\<close> of an entry is at least the total of
  each occurrence.
\<close>

lemma report_total_ge_occurrence_unbounded:
  fixes tn :: "('j, 'a::canonically_ordered_monoid_add) measure_node_t"
  assumes x: "x \<in> set (occurrences rstn Ln tn)"
  shows "\<exists>e. snd (to_report_node (+) rstn tn Map.empty) Ln = Some e
             \<and> self e = sum_list (map m_value (occurrences rstn Ln tn))
             \<and> total e = sum_list (map (total_of (+)) (occurrences rstn Ln tn))
             \<and> total_of (+) x \<le> total e"
proof -
  from x obtain n ns where occ: "occurrences rstn Ln tn = n # ns"
    by (cases "occurrences rstn Ln tn") auto
  from x have "total_of (+) x \<in> set (map (total_of (+)) (occurrences rstn Ln tn))"
    by simp
  then have "total_of (+) x \<le> sum_list (map (total_of (+)) (occurrences rstn Ln tn))"
    by (rule member_le_sum_list) simp_all
  moreover have "snd (to_report_node (+) rstn tn Map.empty) Ln =
                   combined_entry (+) (occurrences rstn Ln tn)"
    by (simp add: to_report_entries(1) foldl_add_occurrence_None)
  ultimately show ?thesis
    by (simp add: occ foldl_add_sum_list)
qed




end
